theory Spec2Isabelle
  imports Complex_Main "HOL-Library.Word" "HOL-Library.Log_Nat"
begin

unbundle bit_operations_syntax

section \<open>Binary floating point, as the sketch's \<^verbatim>\<open>float\<close> arithmetic uses it\<close>

text \<open>
  The sketch computes with \<^verbatim>\<open>float\<close>. The model is IEEE 754 binary floating point with
  round-to-nearest, ties-to-even, every operation rounded on its own to the format of
  its operands. A format is a precision (bits of significand, the hidden one included)
  and the exponent range of normal numbers. \<^verbatim>\<open>float\<close> is binary32 on every Arduino
  target; \<^verbatim>\<open>double\<close> is binary32 on the 8-bit AVR boards and binary64 elsewhere, which
  is why the format is a parameter.

  A finite number is sign, significand and exponent: \<open>Finite s m e\<close> stands for
  \<open>(-1)^s * m * 2^e\<close>, so both zeros exist. Equality of floats in the program is
  \<open>fp_eq\<close>, on values, never the equality of HOL on the triples.
\<close>

record format =
  prec :: nat
  emin :: int
  emax :: int

definition binary32 :: format where
  "binary32 = \<lparr>prec = 24, emin = - 126, emax = 127\<rparr>"

definition binary64 :: format where
  "binary64 = \<lparr>prec = 53, emin = - 1022, emax = 1023\<rparr>"

datatype fp = Finite bool nat int | Infinity bool | NaN

definition fval :: "bool \<Rightarrow> nat \<Rightarrow> int \<Rightarrow> real" where
  "fval s m e = (if s then - (of_nat m * 2 powi e) else of_nat m * 2 powi e)"

text \<open>Round half to even, on a non-negative quotient.\<close>

definition rne :: "real \<Rightarrow> int" where
  "rne q = (let f = \<lfloor>q\<rfloor>; d = q - of_int f in
     if d < 1 / 2 then f
     else if 1 / 2 < d then f + 1
     else if even f then f else f + 1)"

text \<open>
  Rounding of a magnitude \<open>x \<ge> 0\<close> to the format, exponent unbounded above. Every
  number of the format is a multiple of the least subnormal \<open>2 ^ e_least\<close>; \<open>y\<close> is
  \<open>x\<close> in that unit, and \<open>shift_of\<close> the number of low bits of \<open>y\<close> that do not fit
  the precision (none in the subnormal range and the first normal binade).
\<close>

definition e_least :: "format \<Rightarrow> int" where
  "e_least F = emin F - int (prec F) + 1"

definition shift_of :: "format \<Rightarrow> real \<Rightarrow> nat" where
  "shift_of F y = floorlog 2 (nat \<lfloor>y\<rfloor>) - prec F"

definition round_mag :: "format \<Rightarrow> real \<Rightarrow> nat \<times> int" where
  "round_mag F x =
     (let y = x * 2 powi (- e_least F);
          s = shift_of F y;
          m = nat (rne (y / 2 ^ s))
      in (m, int s + e_least F))"

text \<open>The rounded magnitude with its sign; overflow gives an infinity.\<close>

definition mk_fp :: "format \<Rightarrow> bool \<Rightarrow> real \<Rightarrow> fp" where
  "mk_fp F s x =
     (case round_mag F x of (m, e) \<Rightarrow>
        if (2 :: real) powi (emax F + 1) \<le> of_nat m * 2 powi e then Infinity s
        else Finite s m e)"

fun fp_neg :: "fp \<Rightarrow> fp" where
  "fp_neg (Finite s m e) = Finite (\<not> s) m e"
| "fp_neg (Infinity s) = Infinity (\<not> s)"
| "fp_neg NaN = NaN"

fun fp_lt :: "fp \<Rightarrow> fp \<Rightarrow> bool" where
  "fp_lt NaN y = False"
| "fp_lt x NaN = False"
| "fp_lt (Infinity s) (Infinity t) = (s \<and> \<not> t)"
| "fp_lt (Infinity s) (Finite t n f) = s"
| "fp_lt (Finite s m e) (Infinity t) = (\<not> t)"
| "fp_lt (Finite s m e) (Finite t n f) = (fval s m e < fval t n f)"

fun fp_le :: "fp \<Rightarrow> fp \<Rightarrow> bool" where
  "fp_le NaN y = False"
| "fp_le x NaN = False"
| "fp_le (Infinity s) (Infinity t) = (s \<or> \<not> t)"
| "fp_le (Infinity s) (Finite t n f) = s"
| "fp_le (Finite s m e) (Infinity t) = (\<not> t)"
| "fp_le (Finite s m e) (Finite t n f) = (fval s m e \<le> fval t n f)"

fun fp_eq :: "fp \<Rightarrow> fp \<Rightarrow> bool" where
  "fp_eq NaN y = False"
| "fp_eq x NaN = False"
| "fp_eq (Infinity s) (Infinity t) = (s = t)"
| "fp_eq (Infinity s) (Finite t n f) = False"
| "fp_eq (Finite s m e) (Infinity t) = False"
| "fp_eq (Finite s m e) (Finite t n f) = (fval s m e = fval t n f)"

definition fp_gt :: "fp \<Rightarrow> fp \<Rightarrow> bool" where
  "fp_gt x y = fp_lt y x"

definition fp_ge :: "fp \<Rightarrow> fp \<Rightarrow> bool" where
  "fp_ge x y = fp_le y x"

fun fp_add :: "format \<Rightarrow> fp \<Rightarrow> fp \<Rightarrow> fp" where
  "fp_add F NaN y = NaN"
| "fp_add F x NaN = NaN"
| "fp_add F (Infinity s) (Infinity t) = (if s = t then Infinity s else NaN)"
| "fp_add F (Infinity s) (Finite t n f) = Infinity s"
| "fp_add F (Finite s m e) (Infinity t) = Infinity t"
| "fp_add F (Finite s m e) (Finite t n f) =
     (let v = fval s m e + fval t n f in
      if v = 0 then Finite (s \<and> t) 0 0 else mk_fp F (v < 0) \<bar>v\<bar>)"

fun fp_mul :: "format \<Rightarrow> fp \<Rightarrow> fp \<Rightarrow> fp" where
  "fp_mul F NaN y = NaN"
| "fp_mul F x NaN = NaN"
| "fp_mul F (Infinity s) (Infinity t) = Infinity (s \<noteq> t)"
| "fp_mul F (Infinity s) (Finite t n f) =
     (if fval t n f = 0 then NaN else Infinity (s \<noteq> t))"
| "fp_mul F (Finite s m e) (Infinity t) =
     (if fval s m e = 0 then NaN else Infinity (s \<noteq> t))"
| "fp_mul F (Finite s m e) (Finite t n f) =
     mk_fp F (s \<noteq> t) (\<bar>fval s m e\<bar> * \<bar>fval t n f\<bar>)"

fun fp_div :: "format \<Rightarrow> fp \<Rightarrow> fp \<Rightarrow> fp" where
  "fp_div F NaN y = NaN"
| "fp_div F x NaN = NaN"
| "fp_div F (Infinity s) (Infinity t) = NaN"
| "fp_div F (Infinity s) (Finite t n f) = Infinity (s \<noteq> t)"
| "fp_div F (Finite s m e) (Infinity t) = Finite (s \<noteq> t) 0 0"
| "fp_div F (Finite s m e) (Finite t n f) =
     (if fval t n f = 0 then (if fval s m e = 0 then NaN else Infinity (s \<noteq> t))
      else mk_fp F (s \<noteq> t) (\<bar>fval s m e\<bar> / \<bar>fval t n f\<bar>))"

text \<open>Conversions. An integer becomes the nearest float.\<close>

definition fp_of_nat :: "format \<Rightarrow> nat \<Rightarrow> fp" where
  "fp_of_nat F n = mk_fp F False (of_nat n)"

text \<open>
  A float becomes an integer by truncation towards zero; C++ leaves the conversion
  undefined when the truncated value does not fit the destination type, and for
  infinities and NaN: that is \<open>None\<close>.
\<close>

fun fp_trunc :: "fp \<Rightarrow> int option" where
  "fp_trunc (Finite s m e) =
     Some (if s then - \<lfloor>of_nat m * (2 :: real) powi e\<rfloor> else \<lfloor>of_nat m * (2 :: real) powi e\<rfloor>)"
| "fp_trunc (Infinity s) = None"
| "fp_trunc NaN = None"

definition fp_to_int32 :: "fp \<Rightarrow> 32 word option" where
  "fp_to_int32 x =
     (case fp_trunc x of
        None \<Rightarrow> None
      | Some t \<Rightarrow> if - (2 ^ 31) \<le> t \<and> t < 2 ^ 31 then Some (word_of_int t) else None)"

definition fp_to_uint16 :: "fp \<Rightarrow> 16 word option" where
  "fp_to_uint16 x =
     (case fp_trunc x of
        None \<Rightarrow> None
      | Some t \<Rightarrow> if 0 \<le> t \<and> t < 2 ^ 16 then Some (word_of_int t) else None)"

text \<open>A conversion between formats rounds to the destination.\<close>

fun fp_cast :: "format \<Rightarrow> fp \<Rightarrow> fp" where
  "fp_cast F (Finite s m e) = mk_fp F s (of_nat m * 2 powi e)"
| "fp_cast F (Infinity s) = Infinity s"
| "fp_cast F NaN = NaN"

text \<open>A non-negative decimal literal \<open>n / d\<close> in the given format.\<close>

definition fp_lit :: "format \<Rightarrow> nat \<Rightarrow> nat \<Rightarrow> fp" where
  "fp_lit F n d = mk_fp F False (of_nat n / of_nat d)"

section \<open>The sketch's configuration and constants\<close>

text \<open>
  Two properties of the target board enter the arithmetic of the sketch: the width of
  \<^verbatim>\<open>int\<close> (16 bits on AVR, 32 elsewhere), which decides how \<^verbatim>\<open>bits+1\<close> is computed,
  and the format of \<^verbatim>\<open>double\<close>, the type of the unsuffixed literals and of the macro
  \<^verbatim>\<open>PI\<close>. The library function \<^verbatim>\<open>sinf\<close> is not part of the sketch; it is a parameter.
\<close>

record platform =
  int_bits :: nat
  dbl :: format
  sinf :: "fp \<Rightarrow> fp"

text \<open>
  The four \<^verbatim>\<open>#define MODE_OUTPUT_...\<close> switches. Each guards its own \<^verbatim>\<open>#if defined\<close>
  blocks, so they are four independent flags; the sketch asks for exactly one.
\<close>

record config =
  MODE_OUTPUT_SINGLE_VALUE :: bool
  MODE_OUTPUT_FULL_RANGE :: bool
  MODE_OUTPUT_SINE_WAVE :: bool
  MODE_OUTPUT_QUICK_CHANGE :: bool

text \<open>The configuration as the sketch is committed: only the ramp is enabled.\<close>

definition sketch_config :: config where
  "sketch_config =
     \<lparr>MODE_OUTPUT_SINGLE_VALUE = False, MODE_OUTPUT_FULL_RANGE = True,
      MODE_OUTPUT_SINE_WAVE = False, MODE_OUTPUT_QUICK_CHANGE = False\<rparr>"

text \<open>\<^verbatim>\<open>#define DAC_14_BIT 16383\<close>, an \<^verbatim>\<open>int\<close> literal, converted at each call.\<close>

definition DAC_14_BIT :: int where
  "DAC_14_BIT = 16383"

definition TABLE_SIZE :: "16 word" where
  "TABLE_SIZE = 16"

text \<open>The \<^verbatim>\<open>float\<close> literals of the sketch: \<^verbatim>\<open>0.0f\<close>, \<^verbatim>\<open>0.5f\<close> and \<^verbatim>\<open>2.0f\<close>.\<close>

definition lit_0_0f :: fp where
  "lit_0_0f = fp_lit binary32 0 1"

definition lit_0_5f :: fp where
  "lit_0_5f = fp_lit binary32 5 10"

definition lit_2_0f :: fp where
  "lit_2_0f = fp_lit binary32 2 1"

text \<open>
  \<^verbatim>\<open>#define REF_VOLT (float)4.096\<close> and \<^verbatim>\<open>float outputThisVoltage = -1.000;\<close>: a
  \<^verbatim>\<open>double\<close> literal, converted to \<^verbatim>\<open>float\<close>. The variable is never assigned.
\<close>

definition REF_VOLT :: "platform \<Rightarrow> fp" where
  "REF_VOLT P = fp_cast binary32 (fp_lit (dbl P) 4096 1000)"

definition outputThisVoltage :: "platform \<Rightarrow> fp" where
  "outputThisVoltage P = fp_cast binary32 (fp_neg (fp_lit (dbl P) 1000 1000))"

text \<open>
  Modelled from the spec: the macro \<^verbatim>\<open>PI\<close> is used by \<^verbatim>\<open>buildLUT\<close> and defined outside the
  sketch. The spec's angle is \<open>2\<pi>\<cdot>i / N\<close>; the Arduino core defines \<^verbatim>\<open>PI\<close> as the \<^verbatim>\<open>double\<close>
  literal 3.1415926535897932384626433832795.
\<close>

definition PI :: "platform \<Rightarrow> fp" where
  "PI P = fp_lit (dbl P) 31415926535897932384626433832795 10000000000000000000000000000000"

section \<open>Program state and the bus\<close>

text \<open>
  What the sketch does to the outside is the sequence of calls on the pin and the SPI
  bus; \<open>bus\<close> records them in order. \<open>DigitalWrite True\<close> is
  \<^verbatim>\<open>digitalWrite(PIN_CS, HIGH)\<close>.
\<close>

datatype bus_event =
    PinModeOutput
  | DigitalWrite bool
  | SpiBegin
  | SpiBeginTransaction
  | Transfer16 "16 word"

record sketch_state =
  sineLUT :: "16 word list"
  tableCounter :: "16 word"
  bus :: "bus_event list"

definition initial_state :: sketch_state where
  "initial_state = \<lparr>sineLUT = replicate (unat TABLE_SIZE) 0, tableCounter = 0, bus = []\<rparr>"

definition emit :: "bus_event \<Rightarrow> sketch_state \<Rightarrow> sketch_state" where
  "emit ev s = s\<lparr>bus := bus s @ [ev]\<rparr>"

text \<open>
  The framed transfer the sketch writes out at every use:
  \<^verbatim>\<open>digitalWrite(PIN_CS, LOW); SPI.transfer16(code); digitalWrite(PIN_CS, HIGH);\<close>
\<close>

definition write_code :: "16 word \<Rightarrow> sketch_state \<Rightarrow> sketch_state" where
  "write_code code s = emit (DigitalWrite True) (emit (Transfer16 code) (emit (DigitalWrite False) s))"

text \<open>The codes transferred so far, in order.\<close>

fun transfers :: "bus_event list \<Rightarrow> 16 word list" where
  "transfers [] = []"
| "transfers (Transfer16 w # evs) = w # transfers evs"
| "transfers (ev # evs) = transfers evs"

text \<open>Undefined behaviour of the C++ program is a fault.\<close>

datatype fault = UndefinedConversion | OutOfBounds

section \<open>The voltage-to-code converter\<close>

text \<open>
  \<^verbatim>\<open>uint16_t dacBipolarVoltageToCode(uint8_t bits, float vref, float vout)\<close>.
  The parameter \<open>bits0\<close> is the 8-bit value the callee sees. The fault is the
  conversion of \<^verbatim>\<open>code_f + 0.5f\<close> to \<^verbatim>\<open>int32_t\<close> when the value does not fit.
\<close>

definition dacBipolarVoltageToCode :: "8 word \<Rightarrow> fp \<Rightarrow> fp \<Rightarrow> fault + 16 word" where
  "dacBipolarVoltageToCode bits0 vref vout0 =
     (if bits0 = 0 then Inr 0
      else
        let bits = (if 14 < bits0 then 14 else bits0);
            VREF = (if fp_ge vref lit_0_0f then vref else fp_neg vref)
        in
        if fp_eq VREF lit_0_0f then Inr 0
        else
          let vout1 = (if fp_gt vout0 VREF then VREF else vout0);
              vout = (if fp_lt vout1 (fp_neg VREF) then fp_neg VREF else vout1);
              halfScale = (push_bit (unat bits - 1) 1 :: 32 word);
              code_f = fp_add binary32
                         (fp_mul binary32 (fp_div binary32 vout VREF)
                            (fp_of_nat binary32 (unat halfScale)))
                         (fp_of_nat binary32 (unat halfScale))
          in
          case fp_to_int32 (fp_add binary32 code_f lit_0_5f) of
            None \<Rightarrow> Inl UndefinedConversion
          | Some code_i0 \<Rightarrow>
              let maxCode = (push_bit (unat bits) 1 - 1 :: 32 word);
                  code_i1 = (if code_i0 <s 0 then 0 else code_i0);
                  code_i = (if maxCode <s code_i1 then maxCode else code_i1)
              in Inr (ucast code_i))"

section \<open>The waveform table builder\<close>

text \<open>
  \<^verbatim>\<open>float theta = (2.0f * PI * i) / tableSize;\<close> is computed in \<^verbatim>\<open>double\<close>, since \<^verbatim>\<open>PI\<close>
  is one, and converted to \<^verbatim>\<open>float\<close> by the initialisation.
\<close>

definition theta :: "platform \<Rightarrow> 16 word \<Rightarrow> 16 word \<Rightarrow> fp" where
  "theta P i tableSize =
     fp_cast binary32
       (fp_div (dbl P)
          (fp_mul (dbl P) (fp_mul (dbl P) (fp_cast (dbl P) lit_2_0f) (PI P))
             (fp_of_nat (dbl P) (unat i)))
          (fp_of_nat (dbl P) (unat tableSize)))"

text \<open>
  One pass of the loop body. The store into \<^verbatim>\<open>sineLUT[i]\<close> is out of bounds when \<open>i\<close> is
  not below the array's size \<^verbatim>\<open>TABLE_SIZE\<close>.
\<close>

definition buildLUT_body :: "platform \<Rightarrow> 16 word \<Rightarrow> 16 word \<Rightarrow> 16 word \<Rightarrow> sketch_state \<Rightarrow> fault + sketch_state" where
  "buildLUT_body P tableSize bits i s =
     (let amp = fp_add binary32 (fp_mul binary32 (sinf P (theta P i tableSize)) lit_0_5f) lit_0_5f in
      case fp_to_uint16
             (fp_add binary32 (fp_mul binary32 amp (fp_of_nat binary32 (unat bits))) lit_0_5f) of
        None \<Rightarrow> Inl UndefinedConversion
      | Some code \<Rightarrow>
          if i < TABLE_SIZE then Inr (s\<lparr>sineLUT := (sineLUT s)[unat i := code AND 0x3FFF]\<rparr>)
          else Inl OutOfBounds)"

function buildLUT_loop :: "platform \<Rightarrow> 16 word \<Rightarrow> 16 word \<Rightarrow> 16 word \<Rightarrow> sketch_state \<Rightarrow> fault + sketch_state" where
  "buildLUT_loop P tableSize bits i s =
     (if i < tableSize then
        (case buildLUT_body P tableSize bits i s of
           Inl f \<Rightarrow> Inl f
         | Inr s' \<Rightarrow> buildLUT_loop P tableSize bits (i + 1) s')
      else Inr s)"
  by pat_completeness auto
termination
proof (relation "measure (\<lambda>(P, tableSize, bits, i, s). unat tableSize - unat i)")
  show "wf (measure (\<lambda>(P, tableSize, bits, i, s). unat tableSize - unat i))"
    by simp
next
  fix P :: platform and tableSize bits i :: "16 word" and s x2 :: sketch_state
  assume lt: "i < tableSize"
  then have "unat i < unat tableSize" by (simp add: word_less_nat_alt)
  moreover have "unat tableSize < 2 ^ 16"
    using unsigned_less [of tableSize] by simp
  ultimately have "unat i + unat (1 :: 16 word) < 2 ^ LENGTH(16)"
    by simp
  then have "unat (i + 1) = unat i + unat (1 :: 16 word)"
    by (rule unat_add_lem [THEN iffD1])
  with \<open>unat i < unat tableSize\<close>
  show "((P, tableSize, bits, i + 1, x2), (P, tableSize, bits, i, s))
      \<in> measure (\<lambda>(P, tableSize, bits, i, s). unat tableSize - unat i)"
    by simp
qed

declare buildLUT_loop.simps [simp del]

definition buildLUT :: "platform \<Rightarrow> 16 word \<Rightarrow> 16 word \<Rightarrow> sketch_state \<Rightarrow> fault + sketch_state" where
  "buildLUT P tableSize bits s = buildLUT_loop P tableSize bits 0 s"

section \<open>The pattern generators\<close>

text \<open>
  \<^verbatim>\<open>for(uint16_t j=0; j < (bits+1); j++)\<close>. With a 32-bit \<^verbatim>\<open>int\<close> both sides of the
  comparison are promoted and \<^verbatim>\<open>bits+1\<close> cannot wrap; with a 16-bit \<^verbatim>\<open>int\<close> the
  operands are \<^verbatim>\<open>unsigned int\<close> and the sum is taken modulo \<open>2^16\<close>. The counter \<open>j\<close>
  wraps in both cases, so the loop need not end: it is a partial function, and
  \<open>None\<close> is the run that never returns.
\<close>

definition ramp_bound :: "platform \<Rightarrow> 16 word \<Rightarrow> nat" where
  "ramp_bound P bits = (if int_bits P \<le> 16 then (unat bits + 1) mod 2 ^ 16 else unat bits + 1)"

partial_function (option) fullRange_up :: "platform \<Rightarrow> 16 word \<Rightarrow> 16 word \<Rightarrow> sketch_state \<Rightarrow> sketch_state option" where
  "fullRange_up P bits j s =
     (if unat j < ramp_bound P bits then fullRange_up P bits (j + 1) (write_code j s)
      else Some s)"

partial_function (option) fullRange_down :: "platform \<Rightarrow> 16 word \<Rightarrow> 16 word \<Rightarrow> sketch_state \<Rightarrow> sketch_state option" where
  "fullRange_down P bits j s =
     (if unat j < ramp_bound P bits then fullRange_down P bits (j + 1) (write_code (bits - j) s)
      else Some s)"

definition fullRangeTest :: "platform \<Rightarrow> bool \<Rightarrow> 16 word \<Rightarrow> sketch_state \<Rightarrow> sketch_state option" where
  "fullRangeTest P cntUp bits s =
     (if cntUp then fullRange_up P bits 0 s else fullRange_down P bits 0 s)"

text \<open>
  A run of a loop that has no bound on its passes is observed through a number of passes
  \<open>n\<close>: \<open>Returned s\<close> when the loop was left within \<open>n\<close> passes, in state \<open>s\<close>;
  \<open>Running s\<close> when it was not, \<open>s\<close> being the state after the \<open>n\<close>-th pass. A function
  never returns when its run is \<open>Running\<close> for every \<open>n\<close>; the bus of the state carries what
  it has transferred so far.
\<close>

datatype run = Returned (state_of: sketch_state) | Running (state_of: sketch_state)

text \<open>
  \<^verbatim>\<open>quickChangeTest\<close>: the body of \<^verbatim>\<open>while(1)\<close> on the local \<open>val\<close> and the state, the
  loop, whose condition is the constant 1, and the function, which enters the loop with
  \<^verbatim>\<open>val = false\<close>.
\<close>

definition quickChange_body :: "16 word \<Rightarrow> bool \<times> sketch_state \<Rightarrow> bool \<times> sketch_state" where
  "quickChange_body bits vs =
     (case vs of (val, s) \<Rightarrow>
        let s1 = emit (DigitalWrite False) s;
            (val', s2) = (if val then (False, emit (Transfer16 bits) s1)
                          else (True, emit (Transfer16 0) s1))
        in (val', emit (DigitalWrite True) s2))"

fun quickChange_loop :: "nat \<Rightarrow> 16 word \<Rightarrow> bool \<times> sketch_state \<Rightarrow> run" where
  "quickChange_loop 0 bits vs =
     (if (1 :: int) \<noteq> 0 then Running (snd vs) else Returned (snd vs))"
| "quickChange_loop (Suc n) bits vs =
     (if (1 :: int) \<noteq> 0 then quickChange_loop n bits (quickChange_body bits vs)
      else Returned (snd vs))"

definition quickChangeTest :: "nat \<Rightarrow> 16 word \<Rightarrow> sketch_state \<Rightarrow> run" where
  "quickChangeTest n bits s = quickChange_loop n bits (False, s)"

section \<open>\<^verbatim>\<open>setup\<close> and \<^verbatim>\<open>loop\<close>\<close>

text \<open>\<^verbatim>\<open>setup()\<close>; the name \<open>setup\<close> is taken in Isabelle.\<close>

definition setup_sketch :: "platform \<Rightarrow> config \<Rightarrow> sketch_state \<Rightarrow> fault + sketch_state" where
  "setup_sketch P c s =
     (let s1 = emit (DigitalWrite True) (emit PinModeOutput s) in
      case (if MODE_OUTPUT_SINE_WAVE c then buildLUT P TABLE_SIZE (word_of_int DAC_14_BIT) s1
            else Inr s1) of
        Inl f \<Rightarrow> Inl f
      | Inr s2 \<Rightarrow>
          let s3 = emit SpiBeginTransaction (emit SpiBegin s2) in
          if MODE_OUTPUT_SINGLE_VALUE c then
            (case dacBipolarVoltageToCode (word_of_int DAC_14_BIT) (REF_VOLT P) (outputThisVoltage P) of
               Inl f \<Rightarrow> Inl f
             | Inr dacCode \<Rightarrow> Inr (write_code dacCode s3))
          else Inr s3)"

text \<open>
  The sine block of \<^verbatim>\<open>loop\<close>. Reading \<^verbatim>\<open>sineLUT[tableCounter]\<close> is out of bounds when the
  counter is not below \<^verbatim>\<open>TABLE_SIZE\<close>.
\<close>

definition sine_step :: "sketch_state \<Rightarrow> fault + sketch_state" where
  "sine_step s =
     (if tableCounter s < TABLE_SIZE then
        let s1 = write_code (sineLUT s ! unat (tableCounter s)) s;
            s2 = s1\<lparr>tableCounter := tableCounter s1 + 1\<rparr>
        in Inr (if TABLE_SIZE \<le> tableCounter s2 then s2\<lparr>tableCounter := 0\<rparr> else s2)
      else Inl OutOfBounds)"

text \<open>
  One call of \<^verbatim>\<open>loop\<close>, observed through \<open>n\<close> passes of the quick-change loop: \<open>None\<close>
  when the ramp does not return, \<open>Some (Inl f)\<close> when the sine block faults, and else the
  run, which is \<open>Returned\<close> as soon as the quick-change block is not compiled in.
\<close>

definition loop_run :: "nat \<Rightarrow> platform \<Rightarrow> config \<Rightarrow> sketch_state \<Rightarrow> (fault + run) option" where
  "loop_run n P c s =
     (case (if MODE_OUTPUT_SINE_WAVE c then sine_step s else Inr s) of
        Inl f \<Rightarrow> Some (Inl f)
      | Inr s1 \<Rightarrow>
          (case (if MODE_OUTPUT_FULL_RANGE c then fullRangeTest P True (word_of_int DAC_14_BIT) s1
                 else Some s1) of
             None \<Rightarrow> None
           | Some s2 \<Rightarrow>
               Some (Inr (if MODE_OUTPUT_QUICK_CHANGE c then quickChangeTest n (word_of_int DAC_14_BIT) s2
                          else Returned s2))))"

text \<open>
  What one call of \<^verbatim>\<open>loop\<close> returns: the state of the first run that is \<open>Returned\<close>,
  looked for from \<open>n\<close> passes upwards; \<open>None\<close> when the call does not return, \<open>Some (Inl f)\<close>
  when it faults.
\<close>

partial_function (option) loop_from :: "platform \<Rightarrow> config \<Rightarrow> sketch_state \<Rightarrow> nat \<Rightarrow> (fault + sketch_state) option" where
  "loop_from P c s n =
     (case loop_run n P c s of
        None \<Rightarrow> None
      | Some (Inl f) \<Rightarrow> Some (Inl f)
      | Some (Inr (Returned s')) \<Rightarrow> Some (Inr s')
      | Some (Inr (Running s')) \<Rightarrow> loop_from P c s (Suc n))"

definition loop :: "platform \<Rightarrow> config \<Rightarrow> sketch_state \<Rightarrow> (fault + sketch_state) option" where
  "loop P c s = loop_from P c s 0"

text \<open>\<open>n\<close> calls of \<^verbatim>\<open>loop\<close> in a row.\<close>

fun loop_iter :: "platform \<Rightarrow> config \<Rightarrow> nat \<Rightarrow> sketch_state \<Rightarrow> (fault + sketch_state) option" where
  "loop_iter P c 0 s = Some (Inr s)"
| "loop_iter P c (Suc n) s =
     (case loop P c s of
        None \<Rightarrow> None
      | Some (Inl f) \<Rightarrow> Some (Inl f)
      | Some (Inr s') \<Rightarrow> loop_iter P c n s')"

text \<open>
  Modelled from the spec: the enclosing drive loop. The sketch defines \<^verbatim>\<open>setup\<close> and
  \<^verbatim>\<open>loop\<close> only; the caller, which the spec describes as the repeating drive loop that
  runs until power-down, belongs to the Arduino core. It calls \<^verbatim>\<open>loop\<close> again whenever
  \<^verbatim>\<open>loop\<close> returns.
\<close>

partial_function (option) drive :: "platform \<Rightarrow> config \<Rightarrow> sketch_state \<Rightarrow> (fault + sketch_state) option" where
  "drive P c s =
     (case loop P c s of
        None \<Rightarrow> None
      | Some (Inl f) \<Rightarrow> Some (Inl f)
      | Some (Inr s') \<Rightarrow> drive P c s')"

section \<open>Notions used in the proofs\<close>

text \<open>The value of the rounded magnitude, and the same rounding in units of the least subnormal.\<close>

definition rnd :: "format \<Rightarrow> real \<Rightarrow> real" where
  "rnd F x = (case round_mag F x of (m, e) \<Rightarrow> of_nat m * 2 powi e)"

definition urnd :: "format \<Rightarrow> real \<Rightarrow> real" where
  "urnd F y = of_int (rne (y / 2 ^ shift_of F y)) * 2 ^ shift_of F y"

text \<open>Rounding of a signed number, as the operations apply it to their exact result.\<close>

definition srnd :: "format \<Rightarrow> real \<Rightarrow> real" where
  "srnd F x = (if x < 0 then - rnd F (- x) else rnd F x)"

text \<open>The finite floats and their values; truncation towards zero.\<close>

fun is_finite :: "fp \<Rightarrow> bool" where
  "is_finite (Finite s m e) = True"
| "is_finite (Infinity s) = False"
| "is_finite NaN = False"

fun valof :: "fp \<Rightarrow> real" where
  "valof (Finite s m e) = fval s m e"
| "valof (Infinity s) = 0"
| "valof NaN = 0"

definition trunc :: "real \<Rightarrow> int" where
  "trunc v = (if v < 0 then - \<lfloor>- v\<rfloor> else \<lfloor>v\<rfloor>)"

text \<open>
  The converter on real numbers: the code for a ratio \<open>x = vout / VREF\<close>, each
  operation of the source rounded to binary32.
\<close>

definition dac_real :: "nat \<Rightarrow> real \<Rightarrow> int" where
  "dac_real b x =
     min (max (trunc (srnd binary32
                        (srnd binary32 (srnd binary32 (srnd binary32 x * 2 ^ (b - 1)) + 2 ^ (b - 1))
                         + 1 / 2))) 0)
         (2 ^ b - 1)"

definition clamp_unit :: "real \<Rightarrow> real" where
  "clamp_unit x = (if 1 < x then 1 else if x < - 1 then - 1 else x)"

text \<open>A run of framed transfers, one per code of a list.\<close>

fun emit_codes :: "16 word list \<Rightarrow> sketch_state \<Rightarrow> sketch_state" where
  "emit_codes [] s = s"
| "emit_codes (c # cs) s = emit_codes cs (write_code c s)"

text \<open>
  The invariant of the codes: the table has its declared size, and every entry of the
  table and every code transferred so far is at most \<open>0x3FFF\<close>.
\<close>

definition codes_ok :: "sketch_state \<Rightarrow> bool" where
  "codes_ok s =
     (length (sineLUT s) = unat TABLE_SIZE
      \<and> list_all (\<lambda>w. w \<le> 0x3FFF) (sineLUT s)
      \<and> list_all (\<lambda>w. w \<le> 0x3FFF) (transfers (bus s)))"

text \<open>
  The float that \<open>buildLUT\<close> converts to the table entry of index \<open>i\<close>, and the entry as
  a function of the value \<open>v\<close> that \<^verbatim>\<open>sinf\<close> returned.
\<close>

definition lut_float :: "platform \<Rightarrow> 16 word \<Rightarrow> 16 word \<Rightarrow> 16 word \<Rightarrow> fp" where
  "lut_float P tableSize bits i =
     fp_add binary32
       (fp_mul binary32
          (fp_add binary32 (fp_mul binary32 (sinf P (theta P i tableSize)) lit_0_5f) lit_0_5f)
          (fp_of_nat binary32 (unat bits)))
       lit_0_5f"

definition lut_real :: "real \<Rightarrow> int" where
  "lut_real v =
     trunc (srnd binary32
              (srnd binary32 (srnd binary32 (srnd binary32 (v * (1 / 2)) + 1 / 2) * 16383) + 1 / 2))"

text \<open>
  The value of the \<^verbatim>\<open>double\<close> expression \<^verbatim>\<open>(2.0f * PI * i) / tableSize\<close> for a table of 16
  entries: each operation rounds its exact result in the format of \<^verbatim>\<open>double\<close>.
\<close>

definition theta_val :: "format \<Rightarrow> nat \<Rightarrow> real" where
  "theta_val D i =
     rnd D (rnd D (rnd D
       (2 * rnd D (real 31415926535897932384626433832795 / real 10000000000000000000000000000000))
         * rnd D (real i)) / 16)"

section \<open>Rounding: monotone, and exact on the numbers of the format\<close>

lemma rne_of_int: "rne (of_int k) = k"
  by (simp add: rne_def)

lemma rne_bounds: "\<lfloor>q\<rfloor> \<le> rne q \<and> rne q \<le> \<lfloor>q\<rfloor> + 1"
  by (simp add: rne_def Let_def)

lemma rne_mono: "q \<le> q' \<Longrightarrow> rne q \<le> rne q'"
proof -
  assume le: "q \<le> q'"
  then have f: "\<lfloor>q\<rfloor> \<le> \<lfloor>q'\<rfloor>" by (rule floor_mono)
  show ?thesis
  proof (cases "\<lfloor>q\<rfloor> = \<lfloor>q'\<rfloor>")
    case True
    with le show ?thesis
      by (auto simp: rne_def Let_def)
  next
    case False
    with f have "\<lfloor>q\<rfloor> + 1 \<le> \<lfloor>q'\<rfloor>" by simp
    with rne_bounds [of q] rne_bounds [of q'] show ?thesis by linarith
  qed
qed

lemma rne_ge: "of_int k \<le> q \<Longrightarrow> k \<le> rne q"
  using rne_mono [of "of_int k" q] by (simp add: rne_of_int)

lemma rne_le: "q \<le> of_int k \<Longrightarrow> rne q \<le> k"
  using rne_mono [of q "of_int k"] by (simp add: rne_of_int)

lemma rne_eqI: "2 * of_int k - 1 < 2 * q \<Longrightarrow> 2 * q < 2 * of_int k + 1 \<Longrightarrow> rne q = k"
proof -
  assume a: "2 * of_int k - 1 < 2 * q" and b: "2 * q < 2 * of_int k + 1"
  show ?thesis
  proof (cases "of_int k \<le> q")
    case True
    with b have "\<lfloor>q\<rfloor> = k" by (intro floor_unique) auto
    with b show ?thesis by (auto simp: rne_def Let_def)
  next
    case False
    with a have "\<lfloor>q\<rfloor> = k - 1" by (intro floor_unique) auto
    with a show ?thesis by (auto simp: rne_def Let_def)
  qed
qed

lemma shift_of_mono: "y \<le> y' \<Longrightarrow> shift_of F y \<le> shift_of F y'"
  unfolding shift_of_def
  by (intro diff_le_mono floorlog_mono nat_mono floor_mono)

lemma shift_of_upper:
  assumes "0 \<le> y"
  shows "y < 2 ^ (shift_of F y + prec F)"
proof -
  have "floorlog 2 (nat \<lfloor>y\<rfloor>) \<le> shift_of F y + prec F"
    by (simp add: shift_of_def)
  then have "nat \<lfloor>y\<rfloor> < 2 ^ (shift_of F y + prec F)"
    by (rule floorlog_leD) simp
  then have "\<lfloor>y\<rfloor> < 2 ^ (shift_of F y + prec F)"
    using assms by (simp add: nat_less_iff)
  then have "\<lfloor>y\<rfloor> + 1 \<le> 2 ^ (shift_of F y + prec F)"
    by simp
  then have "real_of_int (\<lfloor>y\<rfloor> + 1) \<le> real_of_int (2 ^ (shift_of F y + prec F))"
    by (rule of_int_le_iff [THEN iffD2])
  moreover have "y < real_of_int (\<lfloor>y\<rfloor> + 1)"
    by linarith
  ultimately have "y < real_of_int (2 ^ (shift_of F y + prec F))" by linarith
  then show ?thesis by simp
qed

lemma shift_of_lower:
  assumes "0 < shift_of F y"
  shows "2 ^ (shift_of F y + prec F - 1) \<le> y"
proof -
  let ?n = "nat \<lfloor>y\<rfloor>"
  from assms have fl: "floorlog 2 ?n = shift_of F y + prec F"
    by (simp add: shift_of_def)
  with assms have pos: "0 < floorlog 2 ?n" by simp
  have "2 ^ (floorlog 2 ?n - 1) \<le> ?n"
    by (rule floorlog_geD [OF order_refl pos])
  then have n: "2 ^ (shift_of F y + prec F - 1) \<le> ?n"
    by (simp add: fl)
  have "(0::nat) < 2 ^ (shift_of F y + prec F - 1)" by simp
  with n have "0 < ?n" by linarith
  then have a: "real ?n \<le> y"
    by simp
  from n have "real (2 ^ (shift_of F y + prec F - 1)) \<le> real ?n"
    by (rule of_nat_le_iff [THEN iffD2])
  moreover have "real (2 ^ (shift_of F y + prec F - 1)) = 2 ^ (shift_of F y + prec F - 1)"
    by simp
  ultimately have "2 ^ (shift_of F y + prec F - 1) \<le> real ?n"
    by (simp only:)
  with a show ?thesis by linarith
qed

lemma urnd_mono:
  assumes p: "0 < prec F" and y: "0 \<le> y" and le: "y \<le> y'"
  shows "urnd F y \<le> urnd F y'"
proof -
  let ?s = "shift_of F y" and ?s' = "shift_of F y'"
  have ss: "?s \<le> ?s'" using le by (rule shift_of_mono)
  show ?thesis
  proof (cases "?s = ?s'")
    case True
    have "y / 2 ^ ?s \<le> y' / 2 ^ ?s" using le by (simp add: divide_right_mono)
    then have "rne (y / 2 ^ ?s) \<le> rne (y' / 2 ^ ?s)" by (rule rne_mono)
    then have "real_of_int (rne (y / 2 ^ ?s)) * 2 ^ ?s \<le> real_of_int (rne (y' / 2 ^ ?s)) * 2 ^ ?s"
      by (simp add: mult_right_mono)
    then show ?thesis by (simp add: urnd_def True [symmetric])
  next
    case False
    with ss have lt: "?s + 1 \<le> ?s'" by simp
    then have s'pos: "0 < ?s'" by simp
    have "y / 2 ^ ?s \<le> 2 ^ prec F"
      using shift_of_upper [OF y, of F] by (simp add: power_add field_simps)
    then have "y / 2 ^ ?s \<le> real_of_int (2 ^ prec F)" by simp
    then have "rne (y / 2 ^ ?s) \<le> 2 ^ prec F" by (rule rne_le)
    then have "real_of_int (rne (y / 2 ^ ?s)) \<le> real_of_int (2 ^ prec F)"
      by (rule of_int_le_iff [THEN iffD2])
    then have "real_of_int (rne (y / 2 ^ ?s)) * 2 ^ ?s \<le> 2 ^ prec F * 2 ^ ?s"
      by (simp add: mult_right_mono)
    then have up: "urnd F y \<le> 2 ^ (?s + prec F)"
      by (simp add: urnd_def power_add mult.commute)
    have "2 ^ (?s' + prec F - 1) \<le> y'" using s'pos by (rule shift_of_lower)
    moreover have pw: "(2::real) ^ (?s' + prec F - 1) = 2 ^ (prec F - 1) * 2 ^ ?s'"
      using p by (simp add: power_add [symmetric])
    ultimately have "real_of_int (2 ^ (prec F - 1)) \<le> y' / 2 ^ ?s'"
      by (simp add: field_simps)
    then have "2 ^ (prec F - 1) \<le> rne (y' / 2 ^ ?s')" by (rule rne_ge)
    then have "real_of_int (2 ^ (prec F - 1)) \<le> real_of_int (rne (y' / 2 ^ ?s'))"
      by (rule of_int_le_iff [THEN iffD2])
    then have "2 ^ (prec F - 1) * 2 ^ ?s' \<le> real_of_int (rne (y' / 2 ^ ?s')) * 2 ^ ?s'"
      by (simp add: mult_right_mono)
    then have low: "2 ^ (?s' + prec F - 1) \<le> urnd F y'"
      by (simp only: urnd_def pw)
    have "?s + prec F \<le> ?s' + prec F - 1" using lt p by simp
    then have "(2::real) ^ (?s + prec F) \<le> 2 ^ (?s' + prec F - 1)"
      by (rule power_increasing) simp
    with up low show ?thesis by linarith
  qed
qed

lemma rne_nonneg: "0 \<le> q \<Longrightarrow> 0 \<le> rne q"
  using rne_ge [of 0 q] by simp

lemma rnd_urnd:
  assumes "0 \<le> x"
  shows "rnd F x = urnd F (x * 2 powi (- e_least F)) * 2 powi (e_least F)"
proof -
  let ?y = "x * 2 powi (- e_least F)"
  let ?s = "shift_of F ?y"
  have "0 \<le> ?y" using assms by simp
  then have "0 \<le> ?y / 2 ^ ?s" by simp
  then have "0 \<le> rne (?y / 2 ^ ?s)" by (rule rne_nonneg)
  then have "real (nat (rne (?y / 2 ^ ?s))) = real_of_int (rne (?y / 2 ^ ?s))"
    by simp
  moreover have "(2::real) powi (int ?s + e_least F) = 2 ^ ?s * 2 powi (e_least F)"
    by (simp add: power_int_add)
  ultimately show ?thesis
    by (simp add: rnd_def round_mag_def Let_def urnd_def)
qed

lemma rnd_mono:
  assumes "0 < prec F" and "0 \<le> x" and "x \<le> x'"
  shows "rnd F x \<le> rnd F x'"
proof -
  have "x * 2 powi (- e_least F) \<le> x' * 2 powi (- e_least F)"
    using assms(3) by (simp add: mult_right_mono)
  moreover have "0 \<le> x * 2 powi (- e_least F)" using assms(2) by simp
  ultimately have "urnd F (x * 2 powi (- e_least F)) \<le> urnd F (x' * 2 powi (- e_least F))"
    using assms(1) by (intro urnd_mono)
  then have "urnd F (x * 2 powi (- e_least F)) * 2 powi (e_least F)
      \<le> urnd F (x' * 2 powi (- e_least F)) * 2 powi (e_least F)"
    by (simp add: mult_right_mono)
  moreover have "0 \<le> x'" using assms by linarith
  ultimately show ?thesis using assms(2) by (simp add: rnd_urnd)
qed

lemma urnd_exact:
  assumes "2 ^ shift_of F (real N) dvd N"
  shows "urnd F (real N) = real N"
proof -
  define s where "s = shift_of F (real N)"
  from assms obtain k where k: "N = 2 ^ s * k" by (auto simp: dvd_def s_def)
  have N: "real N = 2 ^ s * real k"
    by (subst k) simp
  have "real N / 2 ^ s = real_of_int (int k)"
    by (simp add: N)
  then have "rne (real N / 2 ^ s) = int k"
    by (simp only: rne_of_int)
  then have "urnd F (real N) = real_of_int (int k) * 2 ^ s"
    by (simp add: urnd_def s_def)
  also have "\<dots> = real N" by (simp add: N)
  finally show ?thesis .
qed

lemma shift_of_small:
  assumes "n < 2 ^ prec F"
  shows "shift_of F (real (n * 2 ^ k)) \<le> k"
proof (cases "n = 0")
  case True
  then show ?thesis by (simp add: shift_of_def floorlog_def)
next
  case False
  then have "floorlog 2 (n * 2 ^ k) = floorlog 2 n + k" by simp
  moreover have "floorlog 2 n \<le> prec F"
    using assms by (intro floorlog_leI) simp_all
  moreover have "nat \<lfloor>real (n * 2 ^ k)\<rfloor> = n * 2 ^ k"
    by (simp only: floor_of_nat nat_int)
  ultimately show ?thesis by (simp add: shift_of_def)
qed

lemma rnd_exact:
  assumes n: "n < 2 ^ prec F" and e: "e_least F \<le> e"
  shows "rnd F (real n * 2 powi e) = real n * 2 powi e"
proof -
  define k where "k = nat (e - e_least F)"
  have ek: "e = int k + e_least F" using e by (simp add: k_def)
  let ?N = "n * 2 ^ k"
  have y: "real n * 2 powi e * 2 powi (- e_least F) = real ?N"
    by (simp add: ek power_int_add power_int_minus)
  have "shift_of F (real ?N) \<le> k" using n by (rule shift_of_small)
  then have "(2::nat) ^ shift_of F (real ?N) dvd 2 ^ k"
    by (rule le_imp_power_dvd)
  then have "2 ^ shift_of F (real ?N) dvd ?N" by (rule dvd_mult)
  then have "urnd F (real ?N) = real ?N" by (rule urnd_exact)
  moreover have "0 \<le> real n * 2 powi e" by simp
  ultimately have "rnd F (real n * 2 powi e) = real ?N * 2 powi (e_least F)"
    by (simp only: rnd_urnd y)
  also have "\<dots> = real n * 2 powi e"
    by (simp add: ek power_int_add)
  finally show ?thesis .
qed

lemma rnd_zero: "rnd F 0 = 0"
  using rnd_exact [of 0 F "e_least F"] by simp

lemma rnd_nonneg: "0 \<le> rnd F x"
  by (simp add: rnd_def split: prod.split)

section \<open>The operations on finite numbers, by value\<close>

lemma fval_abs: "\<bar>fval s m e\<bar> = real m * 2 powi e"
  by (simp add: fval_def)

lemma fval_sign: "fval s m e < 0 \<Longrightarrow> s" "0 < fval s m e \<Longrightarrow> \<not> s"
proof -
  have nn: "0 \<le> real m * (2 :: real) powi e" by simp
  show "fval s m e < 0 \<Longrightarrow> s" using nn by (cases s) (simp_all add: fval_def)
  show "0 < fval s m e \<Longrightarrow> \<not> s" using nn by (cases s) (simp_all add: fval_def)
qed

lemma is_finiteE:
  assumes "is_finite x"
  obtains s m e where "x = Finite s m e"
  using assms by (cases x) auto

lemma mk_fp_val:
  assumes "rnd F x < 2 powi (emax F + 1)"
  shows "is_finite (mk_fp F s x)"
    and "valof (mk_fp F s x) = (if s then - rnd F x else rnd F x)"
  using assms by (auto simp: mk_fp_def rnd_def fval_def split: prod.splits)

lemma srnd_abs: "\<bar>srnd F x\<bar> = rnd F \<bar>x\<bar>"
  using rnd_nonneg [of F x] rnd_nonneg [of F "- x"] by (auto simp: srnd_def)

lemma srnd_zero: "srnd F 0 = 0"
  by (simp add: srnd_def rnd_zero)

lemma srnd_mono:
  assumes "0 < prec F" and "x \<le> y"
  shows "srnd F x \<le> srnd F y"
proof -
  consider "x < 0" "y < 0" | "x < 0" "0 \<le> y" | "0 \<le> x" "0 \<le> y"
    using assms(2) by linarith
  then show ?thesis
  proof cases
    case 1
    with assms have "rnd F (- y) \<le> rnd F (- x)" by (intro rnd_mono) simp_all
    with 1 show ?thesis by (simp add: srnd_def)
  next
    case 2
    with rnd_nonneg [of F "- x"] rnd_nonneg [of F y] show ?thesis
      by (simp add: srnd_def)
  next
    case 3
    with assms have "rnd F x \<le> rnd F y" by (intro rnd_mono) simp_all
    with 3 show ?thesis by (simp add: srnd_def)
  qed
qed

lemma srnd_exact:
  assumes "n < 2 ^ prec F" and "e_least F \<le> e"
  shows "srnd F (real n * 2 powi e) = real n * 2 powi e"
    and "srnd F (- (real n * 2 powi e)) = - (real n * 2 powi e)"
proof -
  have nn: "0 \<le> real n * (2 :: real) powi e" by simp
  have ex: "rnd F (real n * 2 powi e) = real n * 2 powi e"
    using assms by (rule rnd_exact)
  have "\<not> real n * (2 :: real) powi e < 0" using nn by linarith
  then show "srnd F (real n * 2 powi e) = real n * 2 powi e"
    using ex by (simp only: srnd_def if_False)
  show "srnd F (- (real n * 2 powi e)) = - (real n * 2 powi e)"
  proof (cases "real n * (2 :: real) powi e = 0")
    case True
    then show ?thesis by (simp add: srnd_def rnd_zero)
  next
    case False
    with nn have "0 < real n * (2 :: real) powi e" by linarith
    then show ?thesis using ex by (simp add: srnd_def)
  qed
qed

lemma mk_fp_srnd:
  assumes "rnd F \<bar>v\<bar> < 2 powi (emax F + 1)" and "v < 0 \<Longrightarrow> s" and "0 < v \<Longrightarrow> \<not> s"
  shows "is_finite (mk_fp F s \<bar>v\<bar>)" and "valof (mk_fp F s \<bar>v\<bar>) = srnd F v"
proof -
  show "is_finite (mk_fp F s \<bar>v\<bar>)" using assms(1) by (rule mk_fp_val)
  consider "v < 0" | "v = 0" | "0 < v" by linarith
  then show "valof (mk_fp F s \<bar>v\<bar>) = srnd F v"
  proof cases
    case 1
    with assms show ?thesis by (simp add: mk_fp_val srnd_def)
  next
    case 2
    with assms(1) show ?thesis by (simp add: mk_fp_val srnd_def rnd_zero)
  next
    case 3
    with assms show ?thesis by (simp add: mk_fp_val srnd_def)
  qed
qed

lemma fp_div_val:
  assumes "is_finite a" and "is_finite b" and "valof b \<noteq> 0"
    and "rnd F \<bar>valof a / valof b\<bar> < 2 powi (emax F + 1)"
  shows "is_finite (fp_div F a b)" and "valof (fp_div F a b) = srnd F (valof a / valof b)"
proof -
  from assms(1) obtain s m e where a: "a = Finite s m e" by (rule is_finiteE)
  from assms(2) obtain t n f where b: "b = Finite t n f" by (rule is_finiteE)
  let ?v = "fval s m e / fval t n f"
  have nz: "fval t n f \<noteq> 0" using assms(3) b by simp
  have ab: "\<bar>fval s m e\<bar> / \<bar>fval t n f\<bar> = \<bar>?v\<bar>" by simp
  have r: "rnd F \<bar>?v\<bar> < 2 powi (emax F + 1)" using assms(4) a b by simp
  have neg: "?v < 0 \<Longrightarrow> s \<noteq> t"
    using fval_sign [of s m e] fval_sign [of t n f] by (auto simp: divide_less_0_iff)
  have pos: "0 < ?v \<Longrightarrow> \<not> (s \<noteq> t)"
    using fval_sign [of s m e] fval_sign [of t n f] by (auto simp: zero_less_divide_iff)
  have d: "fp_div F a b = mk_fp F (s \<noteq> t) \<bar>?v\<bar>"
    using nz by (simp add: a b ab del: abs_divide)
  show "is_finite (fp_div F a b)"
    unfolding d using r neg pos by (rule mk_fp_srnd)
  show "valof (fp_div F a b) = srnd F (valof a / valof b)"
    unfolding d using mk_fp_srnd(2) [OF r neg pos] by (simp add: a b)
qed

lemma fp_mul_val:
  assumes "is_finite a" and "is_finite b"
    and "rnd F \<bar>valof a * valof b\<bar> < 2 powi (emax F + 1)"
  shows "is_finite (fp_mul F a b)" and "valof (fp_mul F a b) = srnd F (valof a * valof b)"
proof -
  from assms(1) obtain s m e where a: "a = Finite s m e" by (rule is_finiteE)
  from assms(2) obtain t n f where b: "b = Finite t n f" by (rule is_finiteE)
  let ?v = "fval s m e * fval t n f"
  have ab: "\<bar>fval s m e\<bar> * \<bar>fval t n f\<bar> = \<bar>?v\<bar>" by (simp add: abs_mult)
  have r: "rnd F \<bar>?v\<bar> < 2 powi (emax F + 1)" using assms(3) a b by simp
  have neg: "?v < 0 \<Longrightarrow> s \<noteq> t"
    using fval_sign [of s m e] fval_sign [of t n f] by (auto simp: mult_less_0_iff)
  have pos: "0 < ?v \<Longrightarrow> \<not> (s \<noteq> t)"
    using fval_sign [of s m e] fval_sign [of t n f] by (auto simp: zero_less_mult_iff)
  have d: "fp_mul F a b = mk_fp F (s \<noteq> t) \<bar>?v\<bar>"
    by (simp add: a b ab)
  show "is_finite (fp_mul F a b)"
    unfolding d using r neg pos by (rule mk_fp_srnd)
  show "valof (fp_mul F a b) = srnd F (valof a * valof b)"
    unfolding d using mk_fp_srnd(2) [OF r neg pos] by (simp add: a b)
qed

lemma fp_add_val:
  assumes "is_finite a" and "is_finite b"
    and "rnd F \<bar>valof a + valof b\<bar> < 2 powi (emax F + 1)"
  shows "is_finite (fp_add F a b)" and "valof (fp_add F a b) = srnd F (valof a + valof b)"
proof -
  from assms(1) obtain s m e where a: "a = Finite s m e" by (rule is_finiteE)
  from assms(2) obtain t n f where b: "b = Finite t n f" by (rule is_finiteE)
  let ?v = "fval s m e + fval t n f"
  have r: "rnd F \<bar>?v\<bar> < 2 powi (emax F + 1)" using assms(3) a b by simp
  show "is_finite (fp_add F a b)"
  proof (cases "?v = 0")
    case True
    then show ?thesis by (simp add: a b)
  next
    case False
    then have "fp_add F a b = mk_fp F (?v < 0) \<bar>?v\<bar>" by (simp add: a b Let_def)
    moreover have "is_finite (mk_fp F (?v < 0) \<bar>?v\<bar>)"
      using r by (rule mk_fp_srnd) simp_all
    ultimately show ?thesis by simp
  qed
  show "valof (fp_add F a b) = srnd F (valof a + valof b)"
  proof (cases "?v = 0")
    case True
    then show ?thesis by (simp add: a b srnd_zero fval_def)
  next
    case False
    then have "fp_add F a b = mk_fp F (?v < 0) \<bar>?v\<bar>" by (simp add: a b Let_def)
    moreover have "valof (mk_fp F (?v < 0) \<bar>?v\<bar>) = srnd F ?v"
      using r by (rule mk_fp_srnd) simp_all
    ultimately show ?thesis by (simp add: a b)
  qed
qed

lemma fp_of_nat_val:
  assumes "rnd F (real n) < 2 powi (emax F + 1)"
  shows "is_finite (fp_of_nat F n)" and "valof (fp_of_nat F n) = rnd F (real n)"
  using assms by (simp_all add: fp_of_nat_def mk_fp_val)

lemma fp_neg_val: "is_finite (fp_neg x) = is_finite x" "valof (fp_neg x) = - valof x"
  by (cases x; simp add: fval_def)+

lemma fp_trunc_val:
  assumes "is_finite x"
  shows "fp_trunc x = Some (trunc (valof x))"
proof -
  from assms obtain s m e where x: "x = Finite s m e" by (rule is_finiteE)
  let ?a = "real m * (2 :: real) powi e"
  have nn: "0 \<le> ?a" by simp
  show ?thesis
  proof (cases "?a = 0")
    case True
    then show ?thesis by (simp add: x trunc_def fval_def)
  next
    case False
    with nn have "0 < ?a" by linarith
    then show ?thesis by (simp add: x trunc_def fval_def)
  qed
qed

lemma trunc_mono: "x \<le> y \<Longrightarrow> trunc x \<le> trunc y"
proof -
  assume le: "x \<le> y"
  consider "x < 0" "y < 0" | "x < 0" "0 \<le> y" | "0 \<le> x" "0 \<le> y"
    using le by linarith
  then show ?thesis
  proof cases
    case 1
    with le have "\<lfloor>- y\<rfloor> \<le> \<lfloor>- x\<rfloor>" by (intro floor_mono) simp
    with 1 show ?thesis by (simp add: trunc_def)
  next
    case 2
    then have "0 \<le> \<lfloor>- x\<rfloor>" "0 \<le> \<lfloor>y\<rfloor>" by simp_all
    then have "- \<lfloor>- x\<rfloor> \<le> \<lfloor>y\<rfloor>" by linarith
    with 2 show ?thesis by (simp add: trunc_def)
  next
    case 3
    with le show ?thesis by (simp add: trunc_def floor_mono)
  qed
qed

section \<open>The clamp of the converter on machine integers\<close>

lemma ucast_of_int_32_16: "(ucast (word_of_int k :: 32 word) :: 16 word) = word_of_int k"
  by (rule bit_word_eqI) (auto simp: bit_simps)

lemma clamp_code:
  fixes c0 :: "32 word" and b :: nat
  assumes b: "1 \<le> b" "b \<le> 14"
  shows "(ucast (if (push_bit b 1 - 1 :: 32 word) <s (if c0 <s 0 then 0 else c0)
                 then (push_bit b 1 - 1 :: 32 word)
                 else (if c0 <s 0 then 0 else c0)) :: 16 word)
         = word_of_int (min (max (sint c0) 0) (2 ^ b - 1))"
proof -
  have pw: "(2 :: int) ^ b \<le> 2 ^ 14" using b by (intro power_increasing) simp_all
  have pw1: "(2 :: int) ^ 1 \<le> 2 ^ b" using b by (intro power_increasing) simp_all
  have mc: "(push_bit b 1 - 1 :: 32 word) = word_of_int (2 ^ b - 1)"
    by (simp add: push_bit_eq_mult)
  have sM: "sint (word_of_int (2 ^ b - 1) :: 32 word) = 2 ^ b - 1"
    using pw pw1 by (subst sint_sbintrunc') (simp add: signed_take_bit_int_eq_self)
  have c0: "c0 = word_of_int (sint c0)" by simp
  show ?thesis
  proof (cases "sint c0 < 0")
    case True
    then have "(if c0 <s 0 then 0 else c0) = 0" by (simp add: word_sless_alt)
    moreover have "\<not> (word_of_int (2 ^ b - 1) :: 32 word) <s 0"
      using pw1 by (simp only: word_sless_alt sM) simp
    moreover have "min (max (sint c0) 0) (2 ^ b - 1) = 0"
      using True pw1 by simp
    ultimately show ?thesis by (simp only: mc if_False) simp
  next
    case False
    then have c1: "(if c0 <s 0 then 0 else c0) = c0" by (simp add: word_sless_alt)
    show ?thesis
    proof (cases "2 ^ b - 1 < sint c0")
      case True
      have "(word_of_int (2 ^ b - 1) :: 32 word) <s c0"
        unfolding word_sless_alt sM using True .
      moreover have "min (max (sint c0) 0) (2 ^ b - 1) = 2 ^ b - 1"
        using True False by simp
      ultimately show ?thesis
        by (simp only: mc c1 if_True ucast_of_int_32_16)
    next
      case F: False
      have "\<not> (word_of_int (2 ^ b - 1) :: 32 word) <s c0"
        unfolding word_sless_alt sM using F .
      moreover have "min (max (sint c0) 0) (2 ^ b - 1) = sint c0"
        using F False by simp
      moreover have "(ucast c0 :: 16 word) = word_of_int (sint c0)"
        by (subst c0) (simp only: ucast_of_int_32_16)
      ultimately show ?thesis
        by (simp only: mc c1 if_False)
    qed
  qed
qed

section \<open>binary32: bounds, comparisons, the literals\<close>

lemma binary32_simps:
  "prec binary32 = 24" "e_least binary32 = - 149" "emax binary32 + 1 = 128" "0 < prec binary32"
  by (simp_all add: binary32_def e_least_def)

lemma rnd32_pow2:
  assumes "\<bar>v\<bar> \<le> 2 ^ k" and "k \<le> 127"
  shows "rnd binary32 \<bar>v\<bar> < 2 powi (emax binary32 + 1)" and "\<bar>srnd binary32 v\<bar> \<le> 2 ^ k"
proof -
  have "rnd binary32 (real 1 * 2 powi (int k)) = real 1 * 2 powi (int k)"
    by (rule rnd_exact) (simp_all add: binary32_simps)
  then have ex: "rnd binary32 (2 ^ k) = 2 ^ k" by simp
  have "rnd binary32 \<bar>v\<bar> \<le> rnd binary32 (2 ^ k)"
    using assms(1) by (intro rnd_mono) (simp_all add: binary32_simps)
  with ex have le: "rnd binary32 \<bar>v\<bar> \<le> 2 ^ k" by simp
  then show "\<bar>srnd binary32 v\<bar> \<le> 2 ^ k" by (simp add: srnd_abs)
  have "(2 :: real) ^ k < 2 ^ 128" using assms(2) by (intro power_strict_increasing) simp_all
  with le show "rnd binary32 \<bar>v\<bar> < 2 powi (emax binary32 + 1)"
    by (simp add: binary32_simps)
qed

lemma fp_cmp_finite:
  assumes "is_finite a" and "is_finite b"
  shows "fp_lt a b = (valof a < valof b)"
    and "fp_le a b = (valof a \<le> valof b)"
    and "fp_eq a b = (valof a = valof b)"
  using assms by (cases a; cases b; simp)+

lemma lit_0_0f_val: "is_finite lit_0_0f" "valof lit_0_0f = 0"
proof -
  have "rnd binary32 0 < 2 powi (emax binary32 + 1)" by (simp add: rnd_zero)
  then show "is_finite lit_0_0f" "valof lit_0_0f = 0"
    by (simp_all add: lit_0_0f_def fp_lit_def mk_fp_val rnd_zero)
qed

lemma lit_0_5f_val: "is_finite lit_0_5f" "valof lit_0_5f = 1 / 2"
proof -
  have "rnd binary32 (real 1 * 2 powi (- 1)) = real 1 * 2 powi (- 1)"
    by (rule rnd_exact) (simp_all add: binary32_simps)
  then have ex: "rnd binary32 (1 / 2) = 1 / 2" by simp
  then have "rnd binary32 (1 / 2) < 2 powi (emax binary32 + 1)" by (simp add: binary32_simps)
  then show "is_finite lit_0_5f" "valof lit_0_5f = 1 / 2"
    using ex by (simp_all add: lit_0_5f_def fp_lit_def mk_fp_val)
qed

lemma trunc_of_int: "trunc (real_of_int k) = k"
  by (simp add: trunc_def)

lemma trunc_abs_le:
  assumes "\<bar>v\<bar> \<le> real_of_int N"
  shows "- N \<le> trunc v" and "trunc v \<le> N"
proof -
  have "trunc (real_of_int (- N)) \<le> trunc v" using assms by (intro trunc_mono) simp
  then show "- N \<le> trunc v" by (simp only: trunc_of_int)
  have "trunc v \<le> trunc (real_of_int N)" using assms by (intro trunc_mono) simp
  then show "trunc v \<le> N" by (simp only: trunc_of_int)
qed

section \<open>Evaluating the rounding on numerals\<close>

lemma floorlog2_Bit0: "floorlog 2 (numeral (Num.Bit0 n)) = floorlog 2 (numeral n) + 1"
  by (subst compute_floorlog) simp

lemma floorlog2_Bit1: "floorlog 2 (numeral (Num.Bit1 n)) = floorlog 2 (numeral n) + 1"
  by (subst compute_floorlog) simp

lemma floorlog2_0: "floorlog 2 0 = 0"
  by (simp add: floorlog_def)

lemma floorlog2_1: "floorlog 2 (Suc 0) = 1"
  by (subst compute_floorlog) (simp add: floorlog_def)

lemmas fp_eval = mk_fp_def round_mag_def shift_of_def e_least_def binary32_def fp_lit_def fp_of_nat_def
  floorlog2_Bit0 floorlog2_Bit1 floorlog2_0 floorlog2_1 fval_def rne_def Let_def

lemma lit_0_0f_eval: "lit_0_0f = Finite False 0 (- 149)"
  by (simp add: lit_0_0f_def fp_eval)

lemma lit_0_5f_eval: "lit_0_5f = Finite False 8388608 (- 24)"
  by (simp add: lit_0_5f_def fp_eval)

lemma half_scale_14_eval: "fp_of_nat binary32 8192 = Finite False 8388608 (- 10)"
  by (simp add: fp_eval)

section \<open>The converter on finite inputs\<close>

lemma clamp_unit_abs: "\<bar>clamp_unit x\<bar> \<le> 1"
  by (auto simp: clamp_unit_def abs_le_iff)

lemma dac_finite:
  assumes nz: "bits \<noteq> 0" and fr: "is_finite vref" and vnz: "valof vref \<noteq> 0"
    and fo: "is_finite vout0"
  shows "dacBipolarVoltageToCode bits vref vout0 =
           Inr (word_of_int (dac_real (min 14 (unat bits)) (clamp_unit (valof vout0 / \<bar>valof vref\<bar>))))"
proof -
  define bw where "bw = (if 14 < bits then 14 else bits)"
  define b where "b = unat bw"
  have b14: "b = min 14 (unat bits)"
    by (simp add: b_def bw_def word_less_nat_alt min_def)
  have "unat bits \<noteq> 0" using nz by (simp add: unat_eq_0)
  with b14 have b: "1 \<le> b" "b \<le> 14" by simp_all
  define x where "x = clamp_unit (valof vout0 / \<bar>valof vref\<bar>)"
  define VREF where "VREF = (if fp_ge vref lit_0_0f then vref else fp_neg vref)"
  have VREF: "is_finite VREF" "valof VREF = \<bar>valof vref\<bar>"
    using fr by (simp_all add: VREF_def fp_ge_def fp_cmp_finite lit_0_0f_val fp_neg_val)
  have Vpos: "0 < valof VREF" using VREF vnz by simp
  have nveq: "\<not> fp_eq VREF lit_0_0f"
    using VREF vnz by (simp add: fp_cmp_finite lit_0_0f_val)
  define vout1 where "vout1 = (if fp_gt vout0 VREF then VREF else vout0)"
  have vout1: "is_finite vout1"
    "valof vout1 = (if valof VREF < valof vout0 then valof VREF else valof vout0)"
    using fo VREF(1) by (simp_all add: vout1_def fp_gt_def fp_cmp_finite)
  define vout where "vout = (if fp_lt vout1 (fp_neg VREF) then fp_neg VREF else vout1)"
  have vout: "is_finite vout"
    "valof vout = (if valof vout1 < - valof VREF then - valof VREF else valof vout1)"
    using vout1(1) VREF(1) by (simp_all add: vout_def fp_cmp_finite fp_neg_val)
  have ratio: "valof vout / valof VREF = x"
    using Vpos by (auto simp: vout vout1 x_def clamp_unit_def VREF(2) [symmetric] field_simps)
  have xabs: "\<bar>x\<bar> \<le> 1" by (simp add: x_def clamp_unit_abs)
  define hs where "hs = fp_of_nat binary32 (unat (push_bit (unat bw - 1) 1 :: 32 word))"
  have "(2 :: nat) ^ (b - 1) < 2 ^ 32" using b by (intro power_strict_increasing) simp_all
  moreover have "(push_bit (b - 1) 1 :: 32 word) = word_of_nat (2 ^ (b - 1))"
    by (simp add: push_bit_eq_mult)
  ultimately have hsw: "unat (push_bit (unat bw - 1) 1 :: 32 word) = 2 ^ (b - 1)"
    by (simp only: b_def [symmetric] unat_of_nat) simp
  have "rnd binary32 (real 1 * 2 powi (int (b - 1))) = real 1 * 2 powi (int (b - 1))"
    by (rule rnd_exact) (simp_all add: binary32_simps)
  then have hsr: "rnd binary32 (2 ^ (b - 1)) = 2 ^ (b - 1)" by simp
  have thr: "(2 :: real) powi (emax binary32 + 1) = 2 ^ 128" by (simp add: binary32_simps)
  have hsv: "rnd binary32 (real (2 ^ (b - 1))) = 2 ^ (b - 1)"
    unfolding of_nat_power of_nat_numeral by (rule hsr)
  have "(2 :: real) ^ (b - 1) < 2 ^ 128" using b by (intro power_strict_increasing) simp_all
  then have hsl: "rnd binary32 (real (2 ^ (b - 1))) < 2 powi (emax binary32 + 1)"
    unfolding hsv thr .
  have hs: "is_finite hs" "valof hs = 2 ^ (b - 1)"
    unfolding hs_def hsw using fp_of_nat_val [OF hsl] hsv by simp_all
  let ?sr = "srnd binary32"
  define q where "q = fp_div binary32 vout VREF"
  have kb: "0 \<le> (127 :: nat)" "b - 1 \<le> 127" "b \<le> 127" "b + 1 \<le> 127" using b by simp_all
  have xb0: "\<bar>x\<bar> \<le> 2 ^ 0" using xabs by simp
  have qb: "rnd binary32 \<bar>x\<bar> < 2 powi (emax binary32 + 1)" "\<bar>?sr x\<bar> \<le> 2 ^ 0"
    by (rule rnd32_pow2 [OF xb0 kb(1)])+
  have q: "is_finite q" "valof q = ?sr x"
    unfolding q_def using vout(1) VREF(1) Vpos qb(1) by (simp_all add: fp_div_val ratio)
  define p where "p = fp_mul binary32 q hs"
  have "\<bar>valof q * valof hs\<bar> \<le> 1 * 2 ^ (b - 1)"
    unfolding abs_mult using qb(2) by (intro mult_mono) (simp_all add: q hs)
  then have pb0: "\<bar>valof q * valof hs\<bar> \<le> 2 ^ (b - 1)" by simp
  have pb: "rnd binary32 \<bar>valof q * valof hs\<bar> < 2 powi (emax binary32 + 1)"
    "\<bar>?sr (valof q * valof hs)\<bar> \<le> 2 ^ (b - 1)"
    by (rule rnd32_pow2 [OF pb0 kb(2)])+
  have p: "is_finite p" "valof p = ?sr (?sr x * 2 ^ (b - 1))"
    unfolding p_def using q(1) hs(1) pb(1) by (simp_all add: fp_mul_val q(2) hs(2))
  have pabs: "\<bar>valof p\<bar> \<le> 2 ^ (b - 1)" using pb(2) by (simp add: p q hs)
  define c where "c = fp_add binary32 p hs"
  have "\<bar>valof p + valof hs\<bar> \<le> 2 ^ (b - 1) + 2 ^ (b - 1)"
    using pabs by (simp add: hs)
  also have "\<dots> = (2 :: real) ^ b" using b by (cases b) simp_all
  finally have cb0: "\<bar>valof p + valof hs\<bar> \<le> 2 ^ b" .
  have cb: "rnd binary32 \<bar>valof p + valof hs\<bar> < 2 powi (emax binary32 + 1)"
    "\<bar>?sr (valof p + valof hs)\<bar> \<le> 2 ^ b"
    by (rule rnd32_pow2 [OF cb0 kb(3)])+
  have c: "is_finite c" "valof c = ?sr (valof p + 2 ^ (b - 1))"
    unfolding c_def using p(1) hs(1) cb(1) by (simp_all add: fp_add_val hs(2))
  have cabs: "\<bar>valof c\<bar> \<le> 2 ^ b" using cb(2) by (simp add: c hs)
  define r where "r = fp_add binary32 c lit_0_5f"
  have "(1 :: real) \<le> 2 ^ b" by simp
  with cabs have "\<bar>valof c + 1 / 2\<bar> \<le> 2 ^ b + 2 ^ b" by linarith
  then have "\<bar>valof c + valof lit_0_5f\<bar> \<le> 2 ^ b + 2 ^ b"
    by (simp only: lit_0_5f_val)
  also have "\<dots> = (2 :: real) ^ (b + 1)" by simp
  finally have rb0: "\<bar>valof c + valof lit_0_5f\<bar> \<le> 2 ^ (b + 1)" .
  have rb: "rnd binary32 \<bar>valof c + valof lit_0_5f\<bar> < 2 powi (emax binary32 + 1)"
    "\<bar>?sr (valof c + valof lit_0_5f)\<bar> \<le> 2 ^ (b + 1)"
    by (rule rnd32_pow2 [OF rb0 kb(4)])+
  have r: "is_finite r" "valof r = ?sr (valof c + 1 / 2)"
    unfolding r_def using c(1) lit_0_5f_val(1) rb(1) by (simp_all add: fp_add_val lit_0_5f_val(2))
  define T where "T = trunc (valof r)"
  have "(2 :: real) ^ (b + 1) \<le> 2 ^ 15" using b by (intro power_increasing) simp_all
  with rb(2) have "\<bar>valof r\<bar> \<le> real_of_int (2 ^ 15)" by (simp add: r lit_0_5f_val)
  then have Tb: "- (2 ^ 15) \<le> T" "T \<le> 2 ^ 15"
    unfolding T_def by (rule trunc_abs_le)+
  then have conv: "fp_to_int32 r = Some (word_of_int T)"
    using r(1) by (simp add: fp_to_int32_def fp_trunc_val T_def)
  have sT: "sint (word_of_int T :: 32 word) = T"
    using Tb by (subst sint_sbintrunc') (simp add: signed_take_bit_int_eq_self)
  have Tdef: "min (max T 0) (2 ^ b - 1) = dac_real b x"
    by (simp add: dac_real_def T_def r c p)
  have "dacBipolarVoltageToCode bits vref vout0 =
      (case fp_to_int32 r of
         None \<Rightarrow> Inl UndefinedConversion
       | Some code_i0 \<Rightarrow>
           Inr (ucast (if (push_bit b 1 - 1 :: 32 word) <s (if code_i0 <s 0 then 0 else code_i0)
                       then (push_bit b 1 - 1 :: 32 word)
                       else (if code_i0 <s 0 then 0 else code_i0))))"
    unfolding dacBipolarVoltageToCode_def Let_def r_def c_def p_def q_def hs_def vout_def
      vout1_def b_def bw_def
    using nz nveq [unfolded VREF_def] unfolding VREF_def
    by (simp only: if_False)
  also have "\<dots> = Inr (word_of_int (min (max T 0) (2 ^ b - 1)))"
    using clamp_code [OF b, of "word_of_int T"] by (simp only: conv option.case sT)
  finally have "dacBipolarVoltageToCode bits vref vout0 = Inr (word_of_int (dac_real b x))"
    unfolding Tdef .
  then show ?thesis unfolding x_def b14 .
qed

section \<open>The converter on real numbers: monotone, and its values at the end points\<close>

lemma srnd32_half_int:
  assumes "\<bar>k\<bar> < 2 ^ 24"
  shows "srnd binary32 (real_of_int k / 2) = real_of_int k / 2"
proof -
  define n where "n = nat \<bar>k\<bar>"
  have n: "n < 2 ^ prec binary32" using assms by (simp add: n_def binary32_simps nat_less_iff)
  have e: "e_least binary32 \<le> - 1" by (simp add: binary32_simps)
  have v: "real n * 2 powi (- 1) = \<bar>real_of_int k\<bar> / 2" by (simp add: n_def)
  show ?thesis
  proof (cases "0 \<le> k")
    case True
    with srnd_exact(1) [OF n e] v show ?thesis by simp
  next
    case False
    with srnd_exact(2) [OF n e] v show ?thesis by simp
  qed
qed

lemma srnd32_int:
  assumes "\<bar>k\<bar> < 2 ^ 23"
  shows "srnd binary32 (real_of_int k) = real_of_int k"
proof -
  have "\<bar>2 * k\<bar> < 2 ^ 24" using assms by simp
  then have "srnd binary32 (real_of_int (2 * k) / 2) = real_of_int (2 * k) / 2"
    by (rule srnd32_half_int)
  then show ?thesis by simp
qed

lemma dac_real_mono:
  assumes "x \<le> y"
  shows "dac_real b x \<le> dac_real b y"
proof -
  let ?sr = "srnd binary32"
  note m = srnd_mono [OF binary32_simps(4)]
  have "?sr x \<le> ?sr y" using assms by (rule m)
  then have "?sr x * 2 ^ (b - 1) \<le> ?sr y * 2 ^ (b - 1)" by (simp add: mult_right_mono)
  then have "?sr (?sr x * 2 ^ (b - 1)) \<le> ?sr (?sr y * 2 ^ (b - 1))" by (rule m)
  then have "?sr (?sr x * 2 ^ (b - 1)) + 2 ^ (b - 1) \<le> ?sr (?sr y * 2 ^ (b - 1)) + 2 ^ (b - 1)"
    by simp
  then have "?sr (?sr (?sr x * 2 ^ (b - 1)) + 2 ^ (b - 1)) \<le> ?sr (?sr (?sr y * 2 ^ (b - 1)) + 2 ^ (b - 1))"
    by (rule m)
  then have "?sr (?sr (?sr x * 2 ^ (b - 1)) + 2 ^ (b - 1)) + 1 / 2
      \<le> ?sr (?sr (?sr y * 2 ^ (b - 1)) + 2 ^ (b - 1)) + 1 / 2"
    by simp
  then have "?sr (?sr (?sr (?sr x * 2 ^ (b - 1)) + 2 ^ (b - 1)) + 1 / 2)
      \<le> ?sr (?sr (?sr (?sr y * 2 ^ (b - 1)) + 2 ^ (b - 1)) + 1 / 2)"
    by (rule m)
  then have "trunc (?sr (?sr (?sr (?sr x * 2 ^ (b - 1)) + 2 ^ (b - 1)) + 1 / 2))
      \<le> trunc (?sr (?sr (?sr (?sr y * 2 ^ (b - 1)) + 2 ^ (b - 1)) + 1 / 2))"
    by (rule trunc_mono)
  then show ?thesis unfolding dac_real_def by (simp add: min_def max_def)
qed

lemma dac_real_range: "0 \<le> dac_real b x" "dac_real b x \<le> 2 ^ b - 1"
  by (simp_all add: dac_real_def)

lemma dac_real_endpoints:
  assumes b: "1 \<le> b" "b \<le> 14"
  shows "dac_real b 0 = 2 ^ (b - 1)" and "dac_real b 1 = 2 ^ b - 1" and "dac_real b (- 1) = 0"
proof -
  let ?sr = "srnd binary32"
  let ?h = "(2 :: real) ^ (b - 1)"
  have pb: "(2 :: int) ^ b \<le> 2 ^ 14" using b by (intro power_increasing) simp_all
  have pb1: "(2 :: int) ^ (b - 1) \<le> 2 ^ 13" using b by (intro power_increasing) simp_all
  have twice: "(2 :: int) ^ (b - 1) + 2 ^ (b - 1) = 2 ^ b" using b by (cases b) simp_all
  have twicer: "?h + ?h = 2 ^ b" using b by (cases b) simp_all
  have h: "?sr ?h = ?h" "?sr (- ?h) = - ?h"
    using srnd32_int [of "2 ^ (b - 1)"] srnd32_int [of "- (2 ^ (b - 1))"] pb1 by simp_all
  have hb: "(2 :: real) ^ b / 2 = ?h" using b by (cases b) simp_all
  have "\<bar>(2 :: int) ^ b + 1\<bar> < 2 ^ 24" using pb by simp
  then have "?sr (real_of_int (2 ^ b + 1) / 2) = real_of_int (2 ^ b + 1) / 2"
    by (rule srnd32_half_int)
  moreover have "real_of_int (2 ^ b + 1) / 2 = ?h + 1 / 2"
    by (simp add: add_divide_distrib hb)
  ultimately have hh: "?sr (?h + 1 / 2) = ?h + 1 / 2" by (simp only:)
  have f: "?sr (2 ^ b) = 2 ^ b"
    using srnd32_int [of "2 ^ b"] pb by simp
  have fh: "?sr (2 ^ b + 1 / 2) = 2 ^ b + 1 / 2"
    using srnd32_half_int [of "2 * 2 ^ b + 1"] pb by (simp add: add_divide_distrib)
  have one: "?sr 1 = 1" "?sr (- 1) = - 1"
    using srnd32_int [of 1] srnd32_int [of "- 1"] by simp_all
  have half: "?sr (1 / 2) = 1 / 2"
    using srnd32_half_int [of 1] by simp
  have fl: "\<lfloor>real_of_int k + 1 / 2\<rfloor> = k" for k by linarith
  have tr: "trunc (real_of_int k + 1 / 2) = k" if "0 \<le> k" for k
  proof -
    have "\<not> real_of_int k + 1 / 2 < 0" using that by simp
    then show ?thesis unfolding trunc_def by (simp only: if_False fl)
  qed
  have t1: "trunc (?h + 1 / 2) = 2 ^ (b - 1)"
    using tr [of "2 ^ (b - 1)"] by simp
  have t2: "trunc (2 ^ b + 1 / 2 :: real) = 2 ^ b"
    using tr [of "2 ^ b"] by simp
  have t3: "trunc (1 / 2 :: real) = 0" by (simp add: trunc_def)
  have le: "(2 :: int) ^ (b - 1) \<le> 2 ^ b - 1" using twice [symmetric] by simp
  have "dac_real b 0 = min (max (2 ^ (b - 1)) 0) (2 ^ b - 1)"
    by (simp only: dac_real_def srnd_zero mult_zero_left add_0_left h hh t1)
  also have "\<dots> = 2 ^ (b - 1)" using le by simp
  finally show "dac_real b 0 = 2 ^ (b - 1)" .
  have "dac_real b 1 = min (max (2 ^ b) 0) (2 ^ b - 1)"
    by (simp only: dac_real_def one mult_1 h twicer f fh t2)
  also have "\<dots> = 2 ^ b - 1" by simp
  finally show "dac_real b 1 = 2 ^ b - 1" .
  have "dac_real b (- 1) = min (max 0 0) (2 ^ b - 1)"
    by (simp only: dac_real_def one mult_minus1 h add.left_inverse srnd_zero add_0_left half t3)
  also have "\<dots> = 0" by simp
  finally show "dac_real b (- 1) = 0" .
qed

section \<open>The converter: end points and monotonicity\<close>

lemma word_of_int_mono_16:
  assumes "0 \<le> a" and "a \<le> b" and "b < 2 ^ 16"
  shows "(word_of_int a :: 16 word) \<le> word_of_int b"
proof -
  have "uint (word_of_int a :: 16 word) = a" "uint (word_of_int b :: 16 word) = b"
    using assms by (simp_all add: uint_word_of_int take_bit_int_eq_self)
  with assms(2) show ?thesis by (simp add: word_le_def)
qed

lemma clamp_unit_mono: "x \<le> y \<Longrightarrow> clamp_unit x \<le> clamp_unit y"
  by (auto simp: clamp_unit_def)

text \<open>
  Claim C4. For \<open>bits\<close> from 1 to 14 and a finite reference \<open>vref > 0\<close>, the converter maps a
  zero \<open>vout\<close> to mid-scale \<open>2^(bits-1)\<close>, \<open>vout = vref\<close> to \<open>2^bits - 1\<close> and \<open>vout = -vref\<close>
  to 0.
\<close>

theorem dac_endpoints:
  assumes "bits \<noteq> 0" and "bits \<le> 14" and "0 < fval s m e"
  shows "dacBipolarVoltageToCode bits (Finite s m e) (Finite t 0 f) = Inr (2 ^ (unat bits - 1))
       \<and> dacBipolarVoltageToCode bits (Finite s m e) (Finite s m e) = Inr (2 ^ unat bits - 1)
       \<and> dacBipolarVoltageToCode bits (Finite s m e) (fp_neg (Finite s m e)) = Inr 0"
proof -
  let ?V = "fval s m e"
  have "unat bits \<noteq> 0" using assms(1) by (simp add: unat_eq_0)
  moreover have "unat bits \<le> 14" using assms(2) by (simp add: word_le_nat_alt)
  ultimately have b: "min 14 (unat bits) = unat bits" "1 \<le> unat bits" "unat bits \<le> 14"
    by simp_all
  have fin: "is_finite (Finite s m e)" "valof (Finite s m e) \<noteq> 0" "\<bar>valof (Finite s m e)\<bar> = ?V"
    using assms(3) by simp_all
  note d = dac_finite [OF assms(1) fin(1,2), unfolded fin(3) b(1)]
  note ep = dac_real_endpoints [OF b(2,3)]
  have z: "clamp_unit (valof (Finite t 0 f) / ?V) = 0"
    by (simp add: clamp_unit_def fval_def)
  have p: "clamp_unit (valof (Finite s m e) / ?V) = 1"
    using assms(3) by (simp add: clamp_unit_def)
  have n: "clamp_unit (valof (fp_neg (Finite s m e)) / ?V) = - 1"
    using assms(3) by (simp add: clamp_unit_def fp_neg_val del: fp_neg.simps)
  have w: "(word_of_int (2 ^ (unat bits - 1)) :: 16 word) = 2 ^ (unat bits - 1)"
    "(word_of_int (2 ^ unat bits - 1) :: 16 word) = 2 ^ unat bits - 1"
    "(word_of_int 0 :: 16 word) = 0"
    by simp_all
  have "dacBipolarVoltageToCode bits (Finite s m e) (Finite t 0 f) = Inr (2 ^ (unat bits - 1))"
    using d [of "Finite t 0 f"] unfolding z ep w by simp
  moreover have "dacBipolarVoltageToCode bits (Finite s m e) (Finite s m e) = Inr (2 ^ unat bits - 1)"
    using d [of "Finite s m e"] unfolding p ep w by simp
  moreover have "dacBipolarVoltageToCode bits (Finite s m e) (fp_neg (Finite s m e)) = Inr 0"
    using d [of "fp_neg (Finite s m e)"] unfolding n ep w by simp
  ultimately show ?thesis by (intro conjI)
qed

theorem dac_endpoints_witness:
  "(14 :: 8 word) \<noteq> 0 \<and> (14 :: 8 word) \<le> 14 \<and> 0 < fval False 8589935 (- 21)
   \<and> dacBipolarVoltageToCode 14 (Finite False 8589935 (- 21)) (Finite False 0 0) = Inr 8192
   \<and> dacBipolarVoltageToCode 14 (Finite False 8589935 (- 21)) (Finite False 8589935 (- 21)) = Inr 16383
   \<and> dacBipolarVoltageToCode 14 (Finite False 8589935 (- 21)) (Finite True 8589935 (- 21)) = Inr 0"
proof -
  have h: "(14 :: 8 word) \<noteq> 0" "(14 :: 8 word) \<le> 14" "0 < fval False 8589935 (- 21)"
    by (simp_all add: fval_def)
  from dac_endpoints [OF h, of False 0] h show ?thesis by simp
qed

text \<open>
  Claim C5. For \<open>bits\<close> from 1 to 14, a finite reference \<open>vref > 0\<close> and voltages
  \<open>v1 < v2\<close> within \<open>[-vref, vref]\<close>, the converter returns a code for both and the code
  of \<open>v1\<close> is at most the code of \<open>v2\<close>.
\<close>

theorem dac_monotone:
  assumes "bits \<noteq> 0" and "bits \<le> 14" and "0 < fval s m e"
    and "fp_le (fp_neg (Finite s m e)) v1" and "fp_lt v1 v2" and "fp_le v2 (Finite s m e)"
  shows "\<exists>c1 c2. dacBipolarVoltageToCode bits (Finite s m e) v1 = Inr c1
               \<and> dacBipolarVoltageToCode bits (Finite s m e) v2 = Inr c2 \<and> c1 \<le> c2"
proof -
  let ?V = "fval s m e"
  let ?b = "min 14 (unat bits)"
  have fin: "is_finite (Finite s m e)" "valof (Finite s m e) \<noteq> 0" "\<bar>valof (Finite s m e)\<bar> = ?V"
    using assms(3) by simp_all
  have "fp_le (Finite (\<not> s) m e) v1" using assms(4) by simp
  then have f1: "is_finite v1" using assms(5)
    by (cases v1; cases v2) auto
  have f2: "is_finite v2" using assms(5,6)
    by (cases v1; cases v2) auto
  have "valof v1 < valof v2" using assms(5) f1 f2 by (simp add: fp_cmp_finite)
  then have "valof v1 / ?V \<le> valof v2 / ?V"
    using assms(3) by (simp add: divide_right_mono)
  then have "clamp_unit (valof v1 / ?V) \<le> clamp_unit (valof v2 / ?V)"
    by (rule clamp_unit_mono)
  then have le: "dac_real ?b (clamp_unit (valof v1 / ?V)) \<le> dac_real ?b (clamp_unit (valof v2 / ?V))"
    by (rule dac_real_mono)
  have "(2 :: int) ^ ?b \<le> 2 ^ 14" by (intro power_increasing) simp_all
  with dac_real_range(2) [of ?b "clamp_unit (valof v2 / ?V)"]
  have up: "dac_real ?b (clamp_unit (valof v2 / ?V)) < 2 ^ 16" by simp
  have "(word_of_int (dac_real ?b (clamp_unit (valof v1 / ?V))) :: 16 word)
      \<le> word_of_int (dac_real ?b (clamp_unit (valof v2 / ?V)))"
    using dac_real_range(1) le up by (rule word_of_int_mono_16)
  moreover note dac_finite [OF assms(1) fin(1,2) f1, unfolded fin(3)]
    dac_finite [OF assms(1) fin(1,2) f2, unfolded fin(3)]
  ultimately show ?thesis by blast
qed

theorem dac_monotone_witness:
  "(14 :: 8 word) \<noteq> 0 \<and> (14 :: 8 word) \<le> 14 \<and> 0 < fval False 8589935 (- 21)
   \<and> fp_le (fp_neg (Finite False 8589935 (- 21))) (Finite True 8388608 (- 23))
   \<and> fp_lt (Finite True 8388608 (- 23)) (Finite False 8388608 (- 23))
   \<and> fp_le (Finite False 8388608 (- 23)) (Finite False 8589935 (- 21))
   \<and> (\<exists>c1 c2. dacBipolarVoltageToCode 14 (Finite False 8589935 (- 21)) (Finite True 8388608 (- 23)) = Inr c1
        \<and> dacBipolarVoltageToCode 14 (Finite False 8589935 (- 21)) (Finite False 8388608 (- 23)) = Inr c2
        \<and> c1 \<le> c2)"
proof -
  have h: "(14 :: 8 word) \<noteq> 0" "(14 :: 8 word) \<le> 14" "0 < fval False 8589935 (- 21)"
    "fp_le (fp_neg (Finite False 8589935 (- 21))) (Finite True 8388608 (- 23))"
    "fp_lt (Finite True 8388608 (- 23)) (Finite False 8388608 (- 23))"
    "fp_le (Finite False 8388608 (- 23)) (Finite False 8589935 (- 21))"
    by (simp_all add: fval_def)
  from dac_monotone [OF h] h show ?thesis by (intro conjI)
qed

section \<open>The converter: the end-to-end scenario\<close>

lemma dac_at_minus_one:
  "dacBipolarVoltageToCode 14 (fp_lit binary32 4096 1000) (fp_neg (fp_lit binary32 1000 1000)) = Inr 6192"
proof -
  have vr: "fp_lit binary32 4096 1000 = Finite False 8589935 (- 21)"
    by (simp add: fp_eval)
  have vo: "fp_lit binary32 1000 1000 = Finite False 8388608 (- 23)"
    by (simp add: fp_eval)
  have d: "fp_div binary32 (Finite True 8388608 (- 23)) (Finite False 8589935 (- 21))
             = Finite True 16383999 (- 26)"
    by (simp add: fp_eval)
  have m: "fp_mul binary32 (Finite True 16383999 (- 26)) (Finite False 8388608 (- 10))
             = Finite True 16383999 (- 13)"
    by (simp add: fp_eval)
  have a: "fp_add binary32 (Finite True 16383999 (- 13)) (Finite False 8388608 (- 10))
             = Finite False 12681216 (- 11)"
    by (simp add: fp_eval)
  have r: "fp_add binary32 (Finite False 12681216 (- 11)) (Finite False 8388608 (- 24))
             = Finite False 12682240 (- 11)"
    by (simp add: fp_eval)
  have c: "fp_to_int32 (Finite False 12682240 (- 11)) = Some 6192"
    by (simp add: fp_to_int32_def)
  show ?thesis
    unfolding vr vo fp_neg.simps dacBipolarVoltageToCode_def
    by (simp add: lit_0_0f_eval lit_0_5f_eval half_scale_14_eval d m a r c Let_def fp_gt_def
          fp_ge_def fval_def word_sless_alt
          del: fp_div.simps fp_mul.simps fp_add.simps)
qed

text \<open>
  Claim C1, as the code has it. For \<open>bits = 14\<close>, \<open>vref\<close> the \<^verbatim>\<open>float\<close> nearest 4.096 and
  \<open>vout = -1.0\<close> the converter returns 6192; 6192 is also what the spec's formula
  \<open>round((-1.0 / 4.096) * 8192 + 8192)\<close> gives on the real numbers.
\<close>

theorem dac_scenario:
  "dacBipolarVoltageToCode 14 (fp_lit binary32 4096 1000) (fp_neg (fp_lit binary32 1000 1000)) = Inr 6192
   \<and> \<lfloor>(- 1 / (4096 / 1000)) * 8192 + 8192 + 1 / 2 :: real\<rfloor> = 6192"
proof -
  have "\<lfloor>(- 1 / (4096 / 1000)) * 8192 + 8192 + 1 / 2 :: real\<rfloor> = 6192"
    by simp
  with dac_at_minus_one show ?thesis by (intro conjI)
qed

text \<open>The code of that scenario is not the 6208 of claim C1.\<close>

theorem dac_scenario_counterexample:
  "dacBipolarVoltageToCode 14 (fp_lit binary32 4096 1000) (fp_neg (fp_lit binary32 1000 1000)) \<noteq> Inr 6208"
  unfolding dac_at_minus_one by simp

section \<open>The converter: zero and negative references\<close>

lemma VREF_neg:
  "(if fp_ge (fp_neg vref) lit_0_0f then fp_neg vref else fp_neg (fp_neg vref))
     = (if fp_ge vref lit_0_0f then vref else fp_neg vref)
   \<or> fp_eq vref lit_0_0f"
proof (cases vref)
  case (Finite s m e)
  have nn: "0 \<le> real m * (2 :: real) powi e" by simp
  show ?thesis
  proof (cases "real m * (2 :: real) powi e = 0")
    case True
    then show ?thesis by (simp add: Finite lit_0_0f_eval fval_def)
  next
    case False
    with nn have "0 < real m * (2 :: real) powi e" by linarith
    then show ?thesis
      by (cases s) (simp_all add: Finite lit_0_0f_eval fp_ge_def fval_def not_le)
  qed
next
  case (Infinity s)
  then show ?thesis by (cases s) (simp_all add: lit_0_0f_eval fp_ge_def)
next
  case NaN
  then show ?thesis by simp
qed

lemma dac_zero:
  assumes "fp_eq vref lit_0_0f"
  shows "dacBipolarVoltageToCode bits vref vout = Inr 0"
proof -
  have ge: "fp_ge vref lit_0_0f"
    using assms by (cases vref) (simp_all add: lit_0_0f_eval fp_ge_def)
  show ?thesis
    unfolding dacBipolarVoltageToCode_def Let_def
    using ge assms by (simp only: if_True if_cancel)
qed

lemma fp_eq_neg_zero: "fp_eq (fp_neg vref) lit_0_0f = fp_eq vref lit_0_0f"
  by (cases vref) (auto simp: lit_0_0f_eval fval_def)

text \<open>
  Claim C2, as the code has it. A reference of value zero, of either sign, gives code 0
  for every \<open>bits\<close> and every \<open>vout\<close>. A negative reference does not: the converter
  takes its absolute value, so \<open>-vref\<close> gives what \<open>vref\<close> gives.
\<close>

theorem dac_zero_reference:
  "(fp_eq vref lit_0_0f \<longrightarrow> dacBipolarVoltageToCode bits vref vout = Inr 0)
   \<and> dacBipolarVoltageToCode bits (fp_neg vref) vout = dacBipolarVoltageToCode bits vref vout"
proof (intro conjI impI)
  assume "fp_eq vref lit_0_0f"
  then show "dacBipolarVoltageToCode bits vref vout = Inr 0" by (rule dac_zero)
next
  from VREF_neg [of vref]
  show "dacBipolarVoltageToCode bits (fp_neg vref) vout = dacBipolarVoltageToCode bits vref vout"
  proof
    assume "(if fp_ge (fp_neg vref) lit_0_0f then fp_neg vref else fp_neg (fp_neg vref))
      = (if fp_ge vref lit_0_0f then vref else fp_neg vref)"
    then show ?thesis
      unfolding dacBipolarVoltageToCode_def Let_def by (simp only:)
  next
    assume z: "fp_eq vref lit_0_0f"
    then have "fp_eq (fp_neg vref) lit_0_0f" by (simp only: fp_eq_neg_zero)
    then have "dacBipolarVoltageToCode bits (fp_neg vref) vout = Inr 0" by (rule dac_zero)
    moreover from z have "dacBipolarVoltageToCode bits vref vout = Inr 0" by (rule dac_zero)
    ultimately show ?thesis by (simp only:)
  qed
qed

theorem dac_zero_reference_witness:
  "fp_eq (Finite True 0 0) lit_0_0f
   \<and> dacBipolarVoltageToCode 14 (Finite True 0 0) NaN = Inr 0
   \<and> dacBipolarVoltageToCode 14 (fp_neg (Finite True 0 0)) NaN = dacBipolarVoltageToCode 14 (Finite True 0 0) NaN"
proof -
  have h: "fp_eq (Finite True 0 0) lit_0_0f"
    by (simp add: lit_0_0f_eval fval_def)
  from dac_zero_reference [of "Finite True 0 0" 14 NaN] h show ?thesis
    by (simp only: simp_thms)
qed

text \<open>
  Against claim C2 as stated: with the negative reference \<open>-1.0\<close> and \<open>vout = 1.0\<close>, at
  \<open>bits = 14\<close>, the code is 16383.
\<close>

theorem dac_negative_reference_counterexample:
  "fp_lt (Finite True 8388608 (- 23)) lit_0_0f
   \<and> dacBipolarVoltageToCode 14 (Finite True 8388608 (- 23)) (Finite False 8388608 (- 23)) = Inr 16383
   \<and> dacBipolarVoltageToCode 14 (Finite True 8388608 (- 23)) (Finite False 8388608 (- 23)) \<noteq> Inr 0"
proof -
  have lt: "fp_lt (Finite True 8388608 (- 23)) lit_0_0f"
    by (simp add: lit_0_0f_eval fval_def)
  have x: "clamp_unit (valof (Finite False 8388608 (- 23)) / \<bar>valof (Finite True 8388608 (- 23))\<bar>) = 1"
    by (simp add: clamp_unit_def fval_def)
  have b: "min 14 (unat (14 :: 8 word)) = 14" by simp
  have "dacBipolarVoltageToCode 14 (Finite True 8388608 (- 23)) (Finite False 8388608 (- 23))
      = Inr (word_of_int (dac_real 14 1))"
    using dac_finite [of 14 "Finite True 8388608 (- 23)" "Finite False 8388608 (- 23)"]
    unfolding x b by (simp add: fval_def)
  also have "dac_real 14 1 = 2 ^ 14 - 1"
    by (rule dac_real_endpoints) simp_all
  finally have v: "dacBipolarVoltageToCode 14 (Finite True 8388608 (- 23)) (Finite False 8388608 (- 23)) = Inr 16383"
    by simp
  with lt show ?thesis by simp
qed

section \<open>The range of the converter\<close>

lemma word_of_int_le_3FFF:
  assumes "0 \<le> k" and "k \<le> 16383"
  shows "(word_of_int k :: 16 word) \<le> 0x3FFF"
proof -
  have "(word_of_int k :: 16 word) \<le> word_of_int 16383"
    using assms by (intro word_of_int_mono_16) simp_all
  then show ?thesis by simp
qed

lemma dac_range:
  assumes "dacBipolarVoltageToCode bits vref vout0 = Inr c"
  shows "c \<le> 0x3FFF"
proof (cases "bits = 0")
  case True
  with assms show ?thesis by (simp add: dacBipolarVoltageToCode_def)
next
  case nz: False
  define bw where "bw = (if 14 < bits then 14 else bits)"
  define b where "b = unat bw"
  have "unat bits \<noteq> 0" using nz by (simp add: unat_eq_0)
  moreover have "b = min 14 (unat bits)"
    by (simp add: b_def bw_def word_less_nat_alt min_def)
  ultimately have b: "1 \<le> b" "b \<le> 14" by simp_all
  define VREF where "VREF = (if fp_ge vref lit_0_0f then vref else fp_neg vref)"
  define vout1 where "vout1 = (if fp_gt vout0 VREF then VREF else vout0)"
  define vout where "vout = (if fp_lt vout1 (fp_neg VREF) then fp_neg VREF else vout1)"
  define hs where "hs = fp_of_nat binary32 (unat (push_bit (unat bw - 1) 1 :: 32 word))"
  define r where "r = fp_add binary32
      (fp_add binary32 (fp_mul binary32 (fp_div binary32 vout VREF) hs) hs) lit_0_5f"
  have unf: "dacBipolarVoltageToCode bits vref vout0 =
      (if fp_eq VREF lit_0_0f then Inr 0
       else case fp_to_int32 r of
         None \<Rightarrow> Inl UndefinedConversion
       | Some code_i0 \<Rightarrow>
           Inr (ucast (if (push_bit b 1 - 1 :: 32 word) <s (if code_i0 <s 0 then 0 else code_i0)
                       then (push_bit b 1 - 1 :: 32 word)
                       else (if code_i0 <s 0 then 0 else code_i0))))"
    unfolding dacBipolarVoltageToCode_def Let_def r_def hs_def vout_def vout1_def VREF_def
      b_def bw_def
    using nz by (simp only: if_False)
  show ?thesis
  proof (cases "fp_eq VREF lit_0_0f")
    case True
    with assms unf show ?thesis by simp
  next
    case False
    with assms unf obtain c0 where c0: "fp_to_int32 r = Some c0"
      and c: "c = ucast (if (push_bit b 1 - 1 :: 32 word) <s (if c0 <s 0 then 0 else c0)
                       then (push_bit b 1 - 1 :: 32 word)
                       else (if c0 <s 0 then 0 else c0))"
      by (cases "fp_to_int32 r") auto
    have "(2 :: int) ^ b \<le> 2 ^ 14" using b by (intro power_increasing) simp_all
    then have "min (max (sint c0) 0) (2 ^ b - 1) \<le> 16383" by simp
    moreover have "0 \<le> min (max (sint c0) 0) (2 ^ b - 1)" by simp
    ultimately have "(word_of_int (min (max (sint c0) 0) (2 ^ b - 1)) :: 16 word) \<le> 0x3FFF"
      by (intro word_of_int_le_3FFF)
    then show ?thesis unfolding c clamp_code [OF b] .
  qed
qed

section \<open>The bus trace and the ramp loops\<close>

lemma transfers_append: "transfers (xs @ ys) = transfers xs @ transfers ys"
  by (induction xs rule: transfers.induct) simp_all

lemma write_code_simps:
  "transfers (bus (write_code c s)) = transfers (bus s) @ [c]"
  "sineLUT (write_code c s) = sineLUT s"
  "tableCounter (write_code c s) = tableCounter s"
  by (simp_all add: write_code_def emit_def transfers_append)

lemma emit_codes_simps:
  "transfers (bus (emit_codes cs s)) = transfers (bus s) @ cs"
  "sineLUT (emit_codes cs s) = sineLUT s"
  "tableCounter (emit_codes cs s) = tableCounter s"
  by (induction cs arbitrary: s) (simp_all add: write_code_simps)

lemma emit_codes_append: "emit_codes (xs @ ys) s = emit_codes ys (emit_codes xs s)"
  by (induction xs arbitrary: s) simp_all

lemma ramp_bound_eq:
  assumes "unat bits < 65535"
  shows "ramp_bound P bits = unat bits + 1"
  using assms by (simp add: ramp_bound_def)

lemma unat_succ_16:
  fixes j :: "16 word"
  assumes "unat j < 65535"
  shows "unat (j + 1) = unat j + 1"
proof -
  have "unat j + unat (1 :: 16 word) < 2 ^ LENGTH(16)" using assms by simp
  then have "unat (j + 1) = unat j + unat (1 :: 16 word)"
    by (rule unat_add_lem [THEN iffD1])
  then show ?thesis by simp
qed

lemma fullRange_up_run:
  assumes "ramp_bound P bits = n" and "n \<le> 65535" and "unat j \<le> n"
  shows "fullRange_up P bits j s = Some (emit_codes (map word_of_nat [unat j..<n]) s)"
  using assms(3)
proof (induction "n - unat j" arbitrary: j s)
  case 0
  then have "unat j = n" by simp
  then show ?case
    by (subst fullRange_up.simps) (simp add: assms(1))
next
  case (Suc k)
  then have lt: "unat j < n" by simp
  with assms(2) have u: "unat (j + 1) = unat j + 1" by (intro unat_succ_16) simp
  with Suc lt have "fullRange_up P bits (j + 1) (write_code j s)
      = Some (emit_codes (map word_of_nat [unat (j + 1)..<n]) (write_code j s))"
    by (intro Suc.hyps(1)) simp_all
  moreover have "[unat j..<n] = unat j # [unat (j + 1)..<n]"
    using lt by (simp add: u upt_conv_Cons)
  ultimately show ?case
    using lt by (subst fullRange_up.simps) (simp add: assms(1))
qed

lemma fullRange_down_run:
  assumes "ramp_bound P bits = n" and "n \<le> 65535" and "unat j \<le> n"
  shows "fullRange_down P bits j s = Some (emit_codes (map (\<lambda>k. bits - word_of_nat k) [unat j..<n]) s)"
  using assms(3)
proof (induction "n - unat j" arbitrary: j s)
  case 0
  then have "unat j = n" by simp
  then show ?case
    by (subst fullRange_down.simps) (simp add: assms(1))
next
  case (Suc k)
  then have lt: "unat j < n" by simp
  with assms(2) have u: "unat (j + 1) = unat j + 1" by (intro unat_succ_16) simp
  with Suc lt have "fullRange_down P bits (j + 1) (write_code (bits - j) s)
      = Some (emit_codes (map (\<lambda>k. bits - word_of_nat k) [unat (j + 1)..<n]) (write_code (bits - j) s))"
    by (intro Suc.hyps(1)) simp_all
  moreover have "[unat j..<n] = unat j # [unat (j + 1)..<n]"
    using lt by (simp add: u upt_conv_Cons)
  ultimately show ?case
    using lt by (subst fullRange_down.simps) (simp add: assms(1))
qed

lemma fullRangeTest_run:
  assumes "unat bits < 65535"
  shows "fullRangeTest P True bits s = Some (emit_codes (map word_of_nat [0..<unat bits + 1]) s)"
    and "fullRangeTest P False bits s
           = Some (emit_codes (map (\<lambda>k. bits - word_of_nat k) [0..<unat bits + 1]) s)"
  using assms fullRange_up_run [OF ramp_bound_eq [OF assms], where j = 0 and s = s and P = P]
    fullRange_down_run [OF ramp_bound_eq [OF assms], where j = 0 and s = s and P = P]
  by (simp_all add: fullRangeTest_def)

section \<open>The runs of the quick-change loop and of \<^verbatim>\<open>loop\<close>\<close>

lemma quickChange_body_transfers:
  "fst (quickChange_body bits (val, s)) = (\<not> val)"
  "transfers (bus (snd (quickChange_body bits (val, s))))
     = transfers (bus s) @ [if val then bits else 0]"
  "sineLUT (snd (quickChange_body bits (val, s))) = sineLUT s"
  "tableCounter (snd (quickChange_body bits (val, s))) = tableCounter s"
  by (cases val; simp add: quickChange_body_def emit_def transfers_append Let_def)+

lemma quickChange_loop_running:
  "quickChange_loop n bits vs = Running (snd ((quickChange_body bits ^^ n) vs))"
  by (induction n arbitrary: vs) (simp_all add: funpow_swap1)

lemma quickChange_iter:
  "fst ((quickChange_body bits ^^ n) (False, s)) = odd n
   \<and> transfers (bus (snd ((quickChange_body bits ^^ n) (False, s))))
       = transfers (bus s) @ map (\<lambda>i. if even i then 0 else bits) [0..<n]"
proof (induction n)
  case 0
  show ?case by simp
next
  case (Suc n)
  obtain v' s' where it: "(quickChange_body bits ^^ n) (False, s) = (v', s')"
    by (cases "(quickChange_body bits ^^ n) (False, s)")
  with Suc have v': "v' = odd n"
    and t: "transfers (bus s') = transfers (bus s) @ map (\<lambda>i. if even i then 0 else bits) [0..<n]"
    by simp_all
  show ?case
    using quickChange_body_transfers(1,2) [of bits v' s']
    by (simp add: it t v')
qed

lemma quickChangeTest_running:
  "quickChangeTest n bits s = Running (state_of (quickChangeTest n bits s))"
  by (simp add: quickChangeTest_def quickChange_loop_running)

lemma quickChangeTest_transfers:
  "transfers (bus (state_of (quickChangeTest n bits s)))
     = transfers (bus s) @ map (\<lambda>i. if even i then 0 else bits) [0..<n]"
  using quickChange_iter [where bits = bits and n = n and s = s]
  by (simp add: quickChangeTest_def quickChange_loop_running)

lemma quickChangeTest_table:
  "sineLUT (state_of (quickChangeTest n bits s)) = sineLUT s"
proof -
  have "sineLUT (snd ((quickChange_body bits ^^ n) vs)) = sineLUT (snd vs)" for vs
  proof (induction n)
    case 0
    show ?case by simp
  next
    case (Suc n)
    obtain v' s' where it: "(quickChange_body bits ^^ n) vs = (v', s')"
      by (cases "(quickChange_body bits ^^ n) vs")
    with Suc show ?case using quickChange_body_transfers(3) [of bits v' s'] by simp
  qed
  then show ?thesis by (simp add: quickChangeTest_def quickChange_loop_running)
qed

text \<open>Without the quick-change block a call of \<^verbatim>\<open>loop\<close> returns what its run returns.\<close>

lemma loop_no_toggle:
  assumes "\<not> MODE_OUTPUT_QUICK_CHANGE c"
  shows "loop P c s =
     (case (if MODE_OUTPUT_SINE_WAVE c then sine_step s else Inr s) of
        Inl f \<Rightarrow> Some (Inl f)
      | Inr s1 \<Rightarrow>
          (case (if MODE_OUTPUT_FULL_RANGE c then fullRangeTest P True (word_of_int DAC_14_BIT) s1
                 else Some s1) of
             None \<Rightarrow> None
           | Some s2 \<Rightarrow> Some (Inr s2)))"
  unfolding loop_def
  by (subst loop_from.simps) (simp add: loop_run_def assms split: sum.split option.split)

text \<open>With it, no run is \<open>Returned\<close>, and the call does not return a state.\<close>

lemma loop_run_toggle:
  assumes "MODE_OUTPUT_QUICK_CHANGE c" and "loop_run n P c s = Some (Inr r)"
  shows "r = Running (state_of r)"
proof -
  from assms obtain s2 where "r = quickChangeTest n (word_of_int DAC_14_BIT) s2"
    by (auto simp: loop_run_def split: sum.splits option.splits if_splits)
  then show ?thesis using quickChangeTest_running [of n "word_of_int DAC_14_BIT" s2] by simp
qed

lemma loop_toggle_never_returns:
  assumes q: "MODE_OUTPUT_QUICK_CHANGE c"
  shows "loop P c s \<noteq> Some (Inr s')"
proof
  assume a: "loop P c s = Some (Inr s')"
  then have a': "loop_from P c s 0 = Some (Inr s')" by (simp add: loop_def)
  have "snd (fst (fst (((P, c), s), 0 :: nat))) = c \<longrightarrow> (\<forall>t. Inr s' \<noteq> (Inr t :: fault + sketch_state))"
  proof (rule loop_from.raw_induct [where Pa = "\<lambda>x r. snd (fst (fst x)) = c \<longrightarrow> (\<forall>t. r \<noteq> Inr t)",
        OF _ a'], goal_cases)
    case (1 f P' c' s1 n r)
    show ?case
    proof (intro impI)
      assume "snd (fst (fst (((P', c'), s1), n))) = c"
      then have c': "c' = c" by simp
      show "\<forall>t. r \<noteq> Inr t"
      proof (cases "loop_run n P' c s1")
        case None
        with 1(2) show ?thesis by (simp add: c')
      next
        case (Some x)
        show ?thesis
        proof (cases x)
          case (Inl e)
          with 1(2) Some show ?thesis by (auto simp: c')
        next
          case (Inr rr)
          with Some have "rr = Running (state_of rr)" by (intro loop_run_toggle [OF q]) simp
          then obtain st where "rr = Running st" ..
          with 1(2) Some Inr have "f P' c s1 (Suc n) = Some r" by (simp add: c')
          from 1(1) [OF this] show ?thesis by simp
        qed
      qed
    qed
  qed
  then show False by simp
qed

section \<open>The full-range ramp\<close>

lemma word_of_nat_less_16:
  assumes "i < j" and "j < 65536"
  shows "(word_of_nat i :: 16 word) < word_of_nat j"
  using assms by (simp add: word_less_nat_alt unat_of_nat)

lemma ramp_up_sorted:
  assumes "n \<le> 65536"
  shows "sorted_wrt (<) (map word_of_nat [0..<n] :: 16 word list)"
proof -
  have "sorted_wrt (\<lambda>i j. (word_of_nat i :: 16 word) < word_of_nat j) [0..<n]"
  proof (rule sorted_wrt_mono_rel [of _ "(<)"])
    fix i j
    assume "i \<in> set [0..<n]" "j \<in> set [0..<n]" "i < j"
    with assms show "(word_of_nat i :: 16 word) < word_of_nat j"
      by (intro word_of_nat_less_16) simp_all
  qed simp
  then show ?thesis by (simp add: sorted_wrt_map)
qed

lemma ramp_down_sorted:
  fixes bits :: "16 word"
  assumes "n \<le> unat bits + 1"
  shows "sorted_wrt (>) (map (\<lambda>k. bits - word_of_nat k) [0..<n])"
proof -
  have ub: "unat bits < 65536" using unsigned_less [of bits] by simp
  have sub: "unat (bits - word_of_nat k) = unat bits - k" if "k \<le> unat bits" for k
  proof -
    have "k < 65536" using that ub by simp
    then have "unat (word_of_nat k :: 16 word) = k" by (simp add: unat_of_nat)
    moreover from this that have "(word_of_nat k :: 16 word) \<le> bits"
      by (simp add: word_le_nat_alt)
    ultimately show ?thesis by (simp add: unat_sub)
  qed
  have "sorted_wrt (\<lambda>i j. bits - word_of_nat i > bits - word_of_nat j) [0..<n]"
  proof (rule sorted_wrt_mono_rel [of _ "(<)"])
    fix i j
    assume "i \<in> set [0..<n]" "j \<in> set [0..<n]" "i < j"
    with assms have "i \<le> unat bits" "j \<le> unat bits" "i < j" by simp_all
    then show "bits - word_of_nat i > bits - word_of_nat j"
      by (simp add: word_less_nat_alt sub)
  qed simp
  then show ?thesis by (simp add: sorted_wrt_map)
qed

lemma loop_ramp:
  "loop P sketch_config s = Some (Inr (emit_codes (map word_of_nat [0..<16384]) s))"
proof -
  have "unat (word_of_int DAC_14_BIT :: 16 word) < 65535" by (simp add: DAC_14_BIT_def)
  from fullRangeTest_run(1) [OF this, of P s] show ?thesis
    by (simp add: loop_no_toggle sketch_config_def DAC_14_BIT_def)
qed

lemma loop_iter_ramp:
  "\<exists>s'. loop_iter P sketch_config n s = Some (Inr s')
     \<and> transfers (bus s') = transfers (bus s) @ concat (replicate n (map word_of_nat [0..<16384]))"
proof (induction n arbitrary: s)
  case 0
  show ?case by simp
next
  case (Suc n)
  let ?s1 = "emit_codes (map word_of_nat [0..<16384]) s"
  from Suc [of ?s1] obtain s' where
    "loop_iter P sketch_config n ?s1 = Some (Inr s')"
    "transfers (bus s') = transfers (bus ?s1) @ concat (replicate n (map word_of_nat [0..<16384]))"
    by blast
  then show ?case
    by (simp add: loop_ramp emit_codes_simps)
qed

text \<open>
  Claim C6. A call \<open>fullRangeTest(true, bits_max)\<close> returns after \<open>bits_max + 1\<close> transfers,
  the codes \<open>0, 1, \<dots>, bits_max\<close> in strictly increasing order; \<open>fullRangeTest(false, bits_max)\<close>
  after the codes \<open>bits_max, \<dots>, 1, 0\<close> in strictly decreasing order. With the ramp
  enabled, as the sketch is committed, \<open>n\<close> calls of \<open>loop\<close> transfer the ramp
  \<open>0 \<dots> 16383\<close> \<open>n\<close> times over. The only value of \<open>bits_max\<close> left out is 65535,
  where \<^verbatim>\<open>bits+1\<close> is no longer above every counter value.
\<close>

theorem fullRangeTest_ramp:
  assumes "unat bits_max < 65535"
  shows "\<exists>s_up s_down s_n.
      fullRangeTest P True bits_max s = Some s_up
    \<and> transfers (bus s_up) = transfers (bus s) @ map word_of_nat [0..<unat bits_max + 1]
    \<and> fullRangeTest P False bits_max s = Some s_down
    \<and> transfers (bus s_down) = transfers (bus s) @ map (\<lambda>k. bits_max - word_of_nat k) [0..<unat bits_max + 1]
    \<and> length (map word_of_nat [0..<unat bits_max + 1] :: 16 word list) = unat bits_max + 1
    \<and> length (map (\<lambda>k. bits_max - word_of_nat k) [0..<unat bits_max + 1]) = unat bits_max + 1
    \<and> sorted_wrt (<) (map word_of_nat [0..<unat bits_max + 1] :: 16 word list)
    \<and> sorted_wrt (>) (map (\<lambda>k. bits_max - word_of_nat k) [0..<unat bits_max + 1])
    \<and> hd (map word_of_nat [0..<unat bits_max + 1] :: 16 word list) = 0
    \<and> last (map word_of_nat [0..<unat bits_max + 1] :: 16 word list) = bits_max
    \<and> hd (map (\<lambda>k. bits_max - word_of_nat k) [0..<unat bits_max + 1]) = bits_max
    \<and> last (map (\<lambda>k. bits_max - word_of_nat k) [0..<unat bits_max + 1]) = 0
    \<and> loop_iter P sketch_config n s = Some (Inr s_n)
    \<and> transfers (bus s_n) = transfers (bus s) @ concat (replicate n (map word_of_nat [0..<16384]))"
proof -
  let ?up = "map word_of_nat [0..<unat bits_max + 1] :: 16 word list"
  let ?down = "map (\<lambda>k. bits_max - word_of_nat k) [0..<unat bits_max + 1]"
  have ne: "[0..<unat bits_max + 1] \<noteq> []" by simp
  have l: "last [0..<unat bits_max + 1] = unat bits_max" by simp
  have h: "hd [0..<unat bits_max + 1] = 0" by (rule hd_upt) simp
  have su: "sorted_wrt (<) ?up" using assms by (intro ramp_up_sorted) simp
  have sd: "sorted_wrt (>) ?down" by (intro ramp_down_sorted) simp
  have hu: "hd ?up = 0" unfolding hd_map [OF ne] h by simp
  have lu: "last ?up = bits_max" unfolding last_map [OF ne] l by simp
  have hd: "hd ?down = bits_max" unfolding hd_map [OF ne] h by simp
  have ld: "last ?down = 0" unfolding last_map [OF ne] l by simp
  have len: "length ?up = unat bits_max + 1" "length ?down = unat bits_max + 1"
    by (simp_all only: length_map length_upt diff_zero)
  from loop_iter_ramp [of P n s] obtain s_n where
    sn: "loop_iter P sketch_config n s = Some (Inr s_n)"
    "transfers (bus s_n) = transfers (bus s) @ concat (replicate n (map word_of_nat [0..<16384]))"
    by blast
  note run = fullRangeTest_run [OF assms, of P s]
  have tu: "transfers (bus (emit_codes ?up s)) = transfers (bus s) @ ?up"
    and td: "transfers (bus (emit_codes ?down s)) = transfers (bus s) @ ?down"
    by (rule emit_codes_simps)+
  show ?thesis
    by (intro exI [of _ "emit_codes ?up s"] exI [of _ "emit_codes ?down s"] exI [of _ s_n] conjI
        run tu td len su sd hu lu hd ld sn)
qed

theorem fullRangeTest_ramp_witness:
  "unat (3 :: 16 word) < 65535
   \<and> (\<exists>s_up s_down s_n.
      fullRangeTest \<lparr>int_bits = 16, dbl = binary32, sinf = (\<lambda>x. x)\<rparr> True 3 initial_state = Some s_up
    \<and> transfers (bus s_up) = [0, 1, 2, 3]
    \<and> fullRangeTest \<lparr>int_bits = 16, dbl = binary32, sinf = (\<lambda>x. x)\<rparr> False 3 initial_state = Some s_down
    \<and> transfers (bus s_down) = [3, 2, 1, 0]
    \<and> loop_iter \<lparr>int_bits = 16, dbl = binary32, sinf = (\<lambda>x. x)\<rparr> sketch_config 2 initial_state = Some (Inr s_n)
    \<and> transfers (bus s_n) = map word_of_nat [0..<16384] @ map word_of_nat [0..<16384])"
proof -
  have h: "unat (3 :: 16 word) < 65535" by simp
  have u: "[0..<unat (3 :: 16 word) + 1] = [0, 1, 2, 3]" by (simp add: upt_conv_Cons)
  have r: "concat (replicate 2 (map word_of_nat [0..<16384] :: 16 word list))
      = map word_of_nat [0..<16384] @ map word_of_nat [0..<16384]"
    by (simp add: numeral_2_eq_2)
  from fullRangeTest_ramp [OF h, of "\<lparr>int_bits = 16, dbl = binary32, sinf = (\<lambda>x. x)\<rparr>" initial_state 2]
  obtain s_up s_down s_n where
    "fullRangeTest \<lparr>int_bits = 16, dbl = binary32, sinf = (\<lambda>x. x)\<rparr> True 3 initial_state = Some s_up"
    "transfers (bus s_up) = transfers (bus initial_state) @ map word_of_nat [0..<unat (3 :: 16 word) + 1]"
    "fullRangeTest \<lparr>int_bits = 16, dbl = binary32, sinf = (\<lambda>x. x)\<rparr> False 3 initial_state = Some s_down"
    "transfers (bus s_down) = transfers (bus initial_state) @ map (\<lambda>k. 3 - word_of_nat k) [0..<unat (3 :: 16 word) + 1]"
    "loop_iter \<lparr>int_bits = 16, dbl = binary32, sinf = (\<lambda>x. x)\<rparr> sketch_config 2 initial_state = Some (Inr s_n)"
    "transfers (bus s_n) = transfers (bus initial_state) @ concat (replicate 2 (map word_of_nat [0..<16384]))"
    by blast
  then show ?thesis
    unfolding u r using h by (simp add: initial_state_def)
qed

section \<open>The quick-change toggle\<close>

lemma toggle_distinct_adj:
  fixes bits :: "16 word"
  assumes "bits \<noteq> 0"
  shows "distinct_adj (map (\<lambda>i. if even i then 0 else bits) [0..<n])"
  unfolding distinct_adj_conv_nth using assms by auto

text \<open>
  Claim C9. \<open>quickChangeTest\<close> never returns: whatever the number \<open>n\<close> of passes, its run is
  still \<open>Running\<close>. After \<open>n\<close> passes the codes it has transferred are \<open>0, bits, 0, bits, \<dots>\<close>,
  \<open>n\<close> of them, the minimum first; with a non-zero argument no two consecutive codes are
  equal. The sketch's argument \<^verbatim>\<open>DAC_14_BIT\<close> is \<open>2^14 - 1 = 16383\<close>.
\<close>

theorem quickChangeTest_toggles:
  "quickChangeTest n bits s = Running (state_of (quickChangeTest n bits s))
   \<and> transfers (bus (state_of (quickChangeTest n bits s)))
       = transfers (bus s) @ map (\<lambda>i. if even i then 0 else bits) [0..<n]
   \<and> (bits \<noteq> 0 \<longrightarrow> distinct_adj (map (\<lambda>i. if even i then 0 else bits) [0..<n]))
   \<and> (word_of_int DAC_14_BIT :: 16 word) = 2 ^ 14 - 1
   \<and> (word_of_int DAC_14_BIT :: 16 word) \<noteq> 0"
proof -
  have "(word_of_int DAC_14_BIT :: 16 word) = 2 ^ 14 - 1"
    "(word_of_int DAC_14_BIT :: 16 word) \<noteq> 0"
    by (simp_all add: DAC_14_BIT_def)
  then show ?thesis
    using quickChangeTest_running [of n bits s] quickChangeTest_transfers [of n bits s]
      toggle_distinct_adj [where bits = bits and n = n]
    by (intro conjI impI)
qed

theorem quickChangeTest_toggles_witness:
  "(16383 :: 16 word) \<noteq> 0
   \<and> quickChangeTest 4 16383 initial_state = Running (state_of (quickChangeTest 4 16383 initial_state))
   \<and> transfers (bus (state_of (quickChangeTest 4 16383 initial_state))) = [0, 16383, 0, 16383]
   \<and> distinct_adj [0, 16383, 0, 16383 :: 16 word]"
proof -
  have h: "(16383 :: 16 word) \<noteq> 0" by simp
  have u: "map (\<lambda>i. if even i then 0 else (16383 :: 16 word)) [0..<4] = [0, 16383, 0, 16383]"
    by (simp add: upt_conv_Cons)
  have i: "transfers (bus initial_state) = []" by (simp add: initial_state_def)
  from quickChangeTest_toggles [of 4 16383 initial_state] h show ?thesis
    unfolding u i by simp
qed

section \<open>The sine playback cursor\<close>

lemma sine_step_run:
  assumes "tableCounter s < TABLE_SIZE"
  shows "\<exists>s'. sine_step s = Inr s'
    \<and> unat (tableCounter s') = (unat (tableCounter s) + 1) mod unat TABLE_SIZE
    \<and> tableCounter s' < TABLE_SIZE
    \<and> sineLUT s' = sineLUT s
    \<and> transfers (bus s') = transfers (bus s) @ [sineLUT s ! unat (tableCounter s)]"
proof -
  let ?t = "tableCounter s"
  have lt: "unat ?t < 16" using assms by (simp add: TABLE_SIZE_def word_less_nat_alt)
  then have u: "unat (?t + 1) = unat ?t + 1" by (intro unat_succ_16) simp
  show ?thesis
  proof (cases "TABLE_SIZE \<le> ?t + 1")
    case True
    then have "unat ?t + 1 = 16" using lt u by (simp add: TABLE_SIZE_def word_le_nat_alt)
    with True assms show ?thesis
      by (simp add: sine_step_def Let_def write_code_simps TABLE_SIZE_def)
  next
    case False
    then have "unat ?t + 1 < 16" using u by (simp add: TABLE_SIZE_def word_le_nat_alt)
    with False assms u show ?thesis
      by (simp add: sine_step_def Let_def write_code_simps TABLE_SIZE_def word_less_nat_alt)
  qed
qed

lemma loop_sine:
  assumes "MODE_OUTPUT_SINE_WAVE c" and "\<not> MODE_OUTPUT_FULL_RANGE c" and "\<not> MODE_OUTPUT_QUICK_CHANGE c"
  shows "loop P c s = Some (sine_step s)"
  using assms by (simp add: loop_no_toggle split: sum.split)

lemma loop_iter_sine:
  assumes c: "MODE_OUTPUT_SINE_WAVE c" "\<not> MODE_OUTPUT_FULL_RANGE c" "\<not> MODE_OUTPUT_QUICK_CHANGE c"
    and "tableCounter s < TABLE_SIZE"
  shows "\<exists>s'. loop_iter P c n s = Some (Inr s')
    \<and> unat (tableCounter s') = (unat (tableCounter s) + n) mod unat TABLE_SIZE
    \<and> tableCounter s' < TABLE_SIZE
    \<and> sineLUT s' = sineLUT s
    \<and> transfers (bus s') = transfers (bus s)
          @ map (\<lambda>k. sineLUT s ! ((unat (tableCounter s) + k) mod unat TABLE_SIZE)) [0..<n]"
  using assms(4)
proof (induction n arbitrary: s)
  case 0
  then have "unat (tableCounter s) < unat TABLE_SIZE" by (simp add: word_less_nat_alt)
  with 0 show ?case by simp
next
  case (Suc n)
  from sine_step_run [OF Suc.prems] obtain s1 where s1: "sine_step s = Inr s1"
    "unat (tableCounter s1) = (unat (tableCounter s) + 1) mod unat TABLE_SIZE"
    "tableCounter s1 < TABLE_SIZE" "sineLUT s1 = sineLUT s"
    "transfers (bus s1) = transfers (bus s) @ [sineLUT s ! unat (tableCounter s)]"
    by blast
  from Suc.IH [OF s1(3)] obtain s' where s': "loop_iter P c n s1 = Some (Inr s')"
    "unat (tableCounter s') = (unat (tableCounter s1) + n) mod unat TABLE_SIZE"
    "tableCounter s' < TABLE_SIZE" "sineLUT s' = sineLUT s1"
    "transfers (bus s') = transfers (bus s1)
          @ map (\<lambda>k. sineLUT s1 ! ((unat (tableCounter s1) + k) mod unat TABLE_SIZE)) [0..<n]"
    by blast
  have lt: "unat (tableCounter s) < unat TABLE_SIZE"
    using Suc.prems by (simp add: word_less_nat_alt)
  have idx: "((unat (tableCounter s) + 1) mod unat TABLE_SIZE + k) mod unat TABLE_SIZE
      = (unat (tableCounter s) + Suc k) mod unat TABLE_SIZE" for k
    by (simp add: mod_add_left_eq)
  have "[0..<Suc n] = 0 # map Suc [0..<n]"
    by (simp add: upt_conv_Cons map_Suc_upt del: upt_Suc)
  then have mp: "map (\<lambda>k. sineLUT s ! ((unat (tableCounter s) + k) mod unat TABLE_SIZE)) [0..<Suc n]
      = sineLUT s ! unat (tableCounter s)
        # map (\<lambda>k. sineLUT s ! ((unat (tableCounter s) + Suc k) mod unat TABLE_SIZE)) [0..<n]"
    using lt by (simp add: comp_def del: upt_Suc)
  have l: "loop_iter P c (Suc n) s = Some (Inr s')"
    by (simp add: loop_sine [OF c] s1(1) s'(1))
  have u: "unat (tableCounter s') = (unat (tableCounter s) + Suc n) mod unat TABLE_SIZE"
    unfolding s'(2) s1(2) by (rule idx)
  have "transfers (bus s') = (transfers (bus s) @ [sineLUT s ! unat (tableCounter s)])
      @ map (\<lambda>k. sineLUT s ! ((unat (tableCounter s) + Suc k) mod unat TABLE_SIZE)) [0..<n]"
    unfolding s'(5) s1(5) s1(4) s1(2) idx by (rule refl)
  also have "\<dots> = transfers (bus s)
      @ map (\<lambda>k. sineLUT s ! ((unat (tableCounter s) + k) mod unat TABLE_SIZE)) [0..<Suc n]"
    unfolding mp by simp
  finally have tr: "transfers (bus s') = transfers (bus s)
      @ map (\<lambda>k. sineLUT s ! ((unat (tableCounter s) + k) mod unat TABLE_SIZE)) [0..<Suc n]" .
  have lut: "sineLUT s' = sineLUT s" unfolding s'(4) s1(4) by (rule refl)
  show ?case
    by (intro exI [of _ s'] conjI l u s'(3) lut tr)
qed

lemma drive_sine_never_returns:
  assumes c: "MODE_OUTPUT_SINE_WAVE c" "\<not> MODE_OUTPUT_FULL_RANGE c" "\<not> MODE_OUTPUT_QUICK_CHANGE c"
    and t: "tableCounter s < TABLE_SIZE"
  shows "drive P c s = None"
proof -
  have "\<not> tableCounter s < TABLE_SIZE" if a: "drive P c s = Some r" for r
  proof -
    have "fst (fst ((P, c), s)) = P \<and> snd (fst ((P, c), s)) = c
        \<longrightarrow> \<not> tableCounter (snd ((P, c), s)) < TABLE_SIZE"
    proof (rule drive.raw_induct [where Pa = "\<lambda>x r. fst (fst x) = P \<and> snd (fst x) = c
        \<longrightarrow> \<not> tableCounter (snd x) < TABLE_SIZE", OF _ a], goal_cases)
      case (1 f P' c' s' r')
      show ?case
      proof (intro impI notI, elim conjE)
        assume "fst (fst ((P', c'), s')) = P" "snd (fst ((P', c'), s')) = c"
          and "tableCounter (snd ((P', c'), s')) < TABLE_SIZE"
        then have eq: "P' = P" "c' = c" and lt: "tableCounter s' < TABLE_SIZE" by simp_all
        from sine_step_run [OF lt] obtain s1 where s1: "sine_step s' = Inr s1"
          "tableCounter s1 < TABLE_SIZE"
          by blast
        with 1(2) have "f P c s1 = Some r'" by (simp add: eq loop_sine [OF c])
        from 1(1) [OF this] s1(2) show False by simp
      qed
    qed
    then show ?thesis by simp
  qed
  with t show ?thesis by (cases "drive P c s") auto
qed

text \<open>
  Claim C8. With only the sine output enabled and the cursor \<open>tableCounter\<close> below
  \<^verbatim>\<open>TABLE_SIZE\<close>, \<^verbatim>\<open>TABLE_SIZE\<close> calls of \<open>loop\<close> bring the cursor back to where it started.
  Every number \<open>n\<close> of calls runs through without a fault, leaves the cursor at
  \<open>(start + n) mod TABLE_SIZE\<close> and has transferred the table entries under the
  cursor, in order; the drive loop that repeats \<open>loop\<close> never returns.
\<close>

theorem sine_playback_period:
  assumes "MODE_OUTPUT_SINE_WAVE c" and "\<not> MODE_OUTPUT_FULL_RANGE c"
    and "\<not> MODE_OUTPUT_QUICK_CHANGE c" and "tableCounter s < TABLE_SIZE"
  shows "\<exists>s_N s_n.
      loop_iter P c (unat TABLE_SIZE) s = Some (Inr s_N)
    \<and> tableCounter s_N = tableCounter s
    \<and> loop_iter P c n s = Some (Inr s_n)
    \<and> unat (tableCounter s_n) = (unat (tableCounter s) + n) mod unat TABLE_SIZE
    \<and> transfers (bus s_n) = transfers (bus s)
          @ map (\<lambda>k. sineLUT s ! ((unat (tableCounter s) + k) mod unat TABLE_SIZE)) [0..<n]
    \<and> drive P c s = None"
proof -
  from loop_iter_sine [OF assms, of P "unat TABLE_SIZE"] obtain s_N where
    N: "loop_iter P c (unat TABLE_SIZE) s = Some (Inr s_N)"
    "unat (tableCounter s_N) = (unat (tableCounter s) + unat TABLE_SIZE) mod unat TABLE_SIZE"
    by blast
  have "unat (tableCounter s) < unat TABLE_SIZE"
    using assms(4) by (simp add: word_less_nat_alt)
  with N(2) have "unat (tableCounter s_N) = unat (tableCounter s)" by simp
  then have per: "tableCounter s_N = tableCounter s" by (simp add: word_unat_eq_iff)
  from loop_iter_sine [OF assms, of P n] obtain s_n where
    n: "loop_iter P c n s = Some (Inr s_n)"
    "unat (tableCounter s_n) = (unat (tableCounter s) + n) mod unat TABLE_SIZE"
    "transfers (bus s_n) = transfers (bus s)
          @ map (\<lambda>k. sineLUT s ! ((unat (tableCounter s) + k) mod unat TABLE_SIZE)) [0..<n]"
    by blast
  note d = drive_sine_never_returns [OF assms, of P]
  show ?thesis
    by (intro exI [of _ s_N] exI [of _ s_n] conjI N(1) per n d)
qed

theorem sine_playback_period_witness:
  "MODE_OUTPUT_SINE_WAVE \<lparr>MODE_OUTPUT_SINGLE_VALUE = False, MODE_OUTPUT_FULL_RANGE = False,
      MODE_OUTPUT_SINE_WAVE = True, MODE_OUTPUT_QUICK_CHANGE = False\<rparr>
   \<and> \<not> MODE_OUTPUT_FULL_RANGE \<lparr>MODE_OUTPUT_SINGLE_VALUE = False, MODE_OUTPUT_FULL_RANGE = False,
      MODE_OUTPUT_SINE_WAVE = True, MODE_OUTPUT_QUICK_CHANGE = False\<rparr>
   \<and> \<not> MODE_OUTPUT_QUICK_CHANGE \<lparr>MODE_OUTPUT_SINGLE_VALUE = False, MODE_OUTPUT_FULL_RANGE = False,
      MODE_OUTPUT_SINE_WAVE = True, MODE_OUTPUT_QUICK_CHANGE = False\<rparr>
   \<and> tableCounter (initial_state\<lparr>tableCounter := 5\<rparr>) < TABLE_SIZE
   \<and> (\<exists>s_N s_n.
        loop_iter \<lparr>int_bits = 32, dbl = binary64, sinf = (\<lambda>x. x)\<rparr>
          \<lparr>MODE_OUTPUT_SINGLE_VALUE = False, MODE_OUTPUT_FULL_RANGE = False,
           MODE_OUTPUT_SINE_WAVE = True, MODE_OUTPUT_QUICK_CHANGE = False\<rparr>
          16 (initial_state\<lparr>tableCounter := 5\<rparr>) = Some (Inr s_N)
      \<and> tableCounter s_N = 5
      \<and> loop_iter \<lparr>int_bits = 32, dbl = binary64, sinf = (\<lambda>x. x)\<rparr>
          \<lparr>MODE_OUTPUT_SINGLE_VALUE = False, MODE_OUTPUT_FULL_RANGE = False,
           MODE_OUTPUT_SINE_WAVE = True, MODE_OUTPUT_QUICK_CHANGE = False\<rparr>
          20 (initial_state\<lparr>tableCounter := 5\<rparr>) = Some (Inr s_n)
      \<and> unat (tableCounter s_n) = 9
      \<and> drive \<lparr>int_bits = 32, dbl = binary64, sinf = (\<lambda>x. x)\<rparr>
          \<lparr>MODE_OUTPUT_SINGLE_VALUE = False, MODE_OUTPUT_FULL_RANGE = False,
           MODE_OUTPUT_SINE_WAVE = True, MODE_OUTPUT_QUICK_CHANGE = False\<rparr>
          (initial_state\<lparr>tableCounter := 5\<rparr>) = None)"
proof -
  let ?c = "\<lparr>MODE_OUTPUT_SINGLE_VALUE = False, MODE_OUTPUT_FULL_RANGE = False,
      MODE_OUTPUT_SINE_WAVE = True, MODE_OUTPUT_QUICK_CHANGE = False\<rparr>"
  let ?P = "\<lparr>int_bits = 32, dbl = binary64, sinf = (\<lambda>x. x)\<rparr>"
  let ?s = "initial_state\<lparr>tableCounter := 5\<rparr>"
  have h: "MODE_OUTPUT_SINE_WAVE ?c" "\<not> MODE_OUTPUT_FULL_RANGE ?c" "\<not> MODE_OUTPUT_QUICK_CHANGE ?c"
    "tableCounter ?s < TABLE_SIZE"
    by (simp_all add: TABLE_SIZE_def)
  from sine_playback_period [OF h, of ?P 20] obtain s_N s_n where
    "loop_iter ?P ?c (unat TABLE_SIZE) ?s = Some (Inr s_N)" "tableCounter s_N = tableCounter ?s"
    "loop_iter ?P ?c 20 ?s = Some (Inr s_n)"
    "unat (tableCounter s_n) = (unat (tableCounter ?s) + 20) mod unat TABLE_SIZE"
    "drive ?P ?c ?s = None"
    by blast
  then have "loop_iter ?P ?c 16 ?s = Some (Inr s_N) \<and> tableCounter s_N = 5
      \<and> loop_iter ?P ?c 20 ?s = Some (Inr s_n) \<and> unat (tableCounter s_n) = 9
      \<and> drive ?P ?c ?s = None"
    by (simp add: TABLE_SIZE_def)
  then show ?thesis using h by blast
qed

section \<open>Every code on the bus fits fourteen bits\<close>

lemma top_bits_zero_iff: "(w :: 16 word) AND 0xC000 = 0 \<longleftrightarrow> w \<le> 0x3FFF"
proof -
  have m: "(0x3FFF :: 16 word) = mask 14" by (simp add: mask_eq_exp_minus_1)
  have n: "(0xC000 :: 16 word) = NOT (mask 14)"
    by (simp add: mask_eq_exp_minus_1 not_eq_complement)
  have split: "w = (w AND mask 14) OR (w AND NOT (mask 14))"
    by (simp add: bit.conj_disj_distrib [symmetric])
  show ?thesis
  proof
    assume "w AND 0xC000 = 0"
    with split have "w = w AND mask 14" by (simp add: n)
    then have "w \<le> mask 14" by (metis word_and_le1)
    then show "w \<le> 0x3FFF" by (simp only: m)
  next
    assume "w \<le> 0x3FFF"
    then have "w < 2 ^ 14" by (simp add: word_less_nat_alt word_le_nat_alt)
    then have "w AND mask 14 = w" by (rule less_mask_eq)
    then have "w AND NOT (mask 14) = (w AND mask 14) AND NOT (mask 14)" by simp
    also have "\<dots> = 0" by (simp add: and.assoc)
    finally show "w AND 0xC000 = 0" by (simp only: n)
  qed
qed

lemma emit_other_simps:
  "transfers (bus (emit PinModeOutput s)) = transfers (bus s)"
  "transfers (bus (emit (DigitalWrite v) s)) = transfers (bus s)"
  "transfers (bus (emit SpiBegin s)) = transfers (bus s)"
  "transfers (bus (emit SpiBeginTransaction s)) = transfers (bus s)"
  "sineLUT (emit ev s) = sineLUT s"
  by (simp_all add: emit_def transfers_append)

lemma codes_ok_emit_other:
  "codes_ok (emit PinModeOutput s) = codes_ok s"
  "codes_ok (emit (DigitalWrite v) s) = codes_ok s"
  "codes_ok (emit SpiBegin s) = codes_ok s"
  "codes_ok (emit SpiBeginTransaction s) = codes_ok s"
  by (simp_all add: codes_ok_def emit_other_simps)

lemma codes_ok_write_code:
  assumes "codes_ok s" and "c \<le> 0x3FFF"
  shows "codes_ok (write_code c s)"
  using assms by (simp add: codes_ok_def write_code_simps)

lemma codes_ok_emit_codes:
  assumes "codes_ok s" and "list_all (\<lambda>w. w \<le> 0x3FFF) cs"
  shows "codes_ok (emit_codes cs s)"
  using assms by (simp add: codes_ok_def emit_codes_simps)

lemma codes_ok_initial: "codes_ok initial_state"
  by (simp add: codes_ok_def initial_state_def list_all_iff)

lemma codes_ok_buildLUT_body:
  assumes "codes_ok s" and "buildLUT_body P tableSize bits i s = Inr s'"
  shows "codes_ok s'"
proof -
  from assms(2) obtain code where s': "s' = s\<lparr>sineLUT := (sineLUT s)[unat i := code AND 0x3FFF]\<rparr>"
    by (auto simp: buildLUT_body_def Let_def split: option.splits if_splits)
  have "code AND 0x3FFF \<le> 0x3FFF" by (rule word_and_le1)
  moreover have "set ((sineLUT s)[unat i := code AND 0x3FFF]) \<subseteq> insert (code AND 0x3FFF) (set (sineLUT s))"
    by (rule set_update_subset_insert)
  ultimately show ?thesis
    using assms(1) by (auto simp: codes_ok_def s' list_all_iff)
qed

lemma codes_ok_buildLUT_loop:
  assumes "codes_ok s" and "buildLUT_loop P tableSize bits i s = Inr s'"
  shows "codes_ok s'"
  using assms
proof (induction P tableSize bits i s rule: buildLUT_loop.induct)
  case (1 P tableSize bits i s)
  show ?case
  proof (cases "i < tableSize")
    case True
    with "1.prems"(2) obtain s1 where s1: "buildLUT_body P tableSize bits i s = Inr s1"
      and rest: "buildLUT_loop P tableSize bits (i + 1) s1 = Inr s'"
      by (subst (asm) buildLUT_loop.simps) (auto split: sum.splits)
    from "1.prems"(1) s1 have "codes_ok s1" by (rule codes_ok_buildLUT_body)
    with "1.IH" [OF True s1] rest show ?thesis by simp
  next
    case False
    with "1.prems" show ?thesis
      by (subst (asm) buildLUT_loop.simps) simp
  qed
qed

lemma codes_ok_setup:
  assumes "codes_ok s0" and "setup_sketch P c s0 = Inr s"
  shows "codes_ok s"
proof -
  let ?s1 = "emit (DigitalWrite True) (emit PinModeOutput s0)"
  have ok1: "codes_ok ?s1" using assms(1) by (simp add: codes_ok_emit_other)
  obtain s2 where s2: "(if MODE_OUTPUT_SINE_WAVE c then buildLUT P TABLE_SIZE (word_of_int DAC_14_BIT) ?s1
            else Inr ?s1) = Inr s2"
    using assms(2) by (auto simp: setup_sketch_def Let_def split: sum.splits)
  have ok2: "codes_ok s2"
    using s2 ok1 codes_ok_buildLUT_loop [of ?s1 P TABLE_SIZE "word_of_int DAC_14_BIT" 0 s2]
    by (auto simp: buildLUT_def split: if_splits)
  let ?s3 = "emit SpiBeginTransaction (emit SpiBegin s2)"
  have ok3: "codes_ok ?s3" using ok2 by (simp add: codes_ok_emit_other)
  show ?thesis
  proof (cases "MODE_OUTPUT_SINGLE_VALUE c")
    case True
    with assms(2) s2 obtain dacCode where
      d: "dacBipolarVoltageToCode (word_of_int DAC_14_BIT) (REF_VOLT P) (outputThisVoltage P) = Inr dacCode"
      and s: "s = write_code dacCode ?s3"
      by (auto simp: setup_sketch_def Let_def split: sum.splits)
    from d have "dacCode \<le> 0x3FFF" by (rule dac_range)
    with ok3 show ?thesis unfolding s by (rule codes_ok_write_code)
  next
    case False
    with assms(2) s2 have "s = ?s3" by (auto simp: setup_sketch_def Let_def)
    with ok3 show ?thesis by simp
  qed
qed

lemma codes_ok_sine_step:
  assumes "codes_ok s" and "sine_step s = Inr s'"
  shows "codes_ok s'"
proof -
  from assms(2) have lt: "tableCounter s < TABLE_SIZE"
    by (auto simp: sine_step_def split: if_splits)
  then have "unat (tableCounter s) < length (sineLUT s)"
    using assms(1) by (simp add: codes_ok_def word_less_nat_alt)
  then have "sineLUT s ! unat (tableCounter s) \<in> set (sineLUT s)" by (rule nth_mem)
  then have le: "sineLUT s ! unat (tableCounter s) \<le> 0x3FFF"
    using assms(1) by (simp add: codes_ok_def list_all_iff)
  from sine_step_run [OF lt] assms(2) have
    "sineLUT s' = sineLUT s"
    "transfers (bus s') = transfers (bus s) @ [sineLUT s ! unat (tableCounter s)]"
    by auto
  with assms(1) le show ?thesis by (simp add: codes_ok_def)
qed

lemma ramp_codes_le:
  "list_all (\<lambda>w. w \<le> 0x3FFF) (map word_of_nat [0..<16384] :: 16 word list)"
  "list_all (\<lambda>w. w \<le> 0x3FFF) (map (\<lambda>k. (16383 :: 16 word) - word_of_nat k) [0..<16384])"
proof -
  have a: "(word_of_nat k :: 16 word) \<le> 0x3FFF" if "k < 16384" for k
    using that by (simp add: word_le_nat_alt unat_of_nat)
  have b: "(16383 :: 16 word) - word_of_nat k \<le> 0x3FFF" if "k < 16384" for k
  proof -
    have "unat (word_of_nat k :: 16 word) = k" using that by (simp add: unat_of_nat)
    then have "(word_of_nat k :: 16 word) \<le> 16383" using that by (simp add: word_le_nat_alt)
    then show ?thesis by (simp add: word_le_nat_alt unat_sub)
  qed
  show "list_all (\<lambda>w. w \<le> 0x3FFF) (map word_of_nat [0..<16384] :: 16 word list)"
    unfolding list_all_iff using a by (auto simp del: upt_Suc)
  show "list_all (\<lambda>w. w \<le> 0x3FFF) (map (\<lambda>k. (16383 :: 16 word) - word_of_nat k) [0..<16384])"
    unfolding list_all_iff using b by (auto simp del: upt_Suc)
qed

lemma codes_ok_fullRangeTest:
  assumes "codes_ok s" and "fullRangeTest P cntUp (word_of_int DAC_14_BIT) s = Some s'"
  shows "codes_ok s'"
proof -
  have w: "(word_of_int DAC_14_BIT :: 16 word) = 16383" by (simp add: DAC_14_BIT_def)
  have u: "unat (16383 :: 16 word) < 65535" "unat (16383 :: 16 word) + 1 = 16384" by simp_all
  note run = fullRangeTest_run [OF u(1), of P s, unfolded u(2)]
  show ?thesis
  proof (cases cntUp)
    case True
    with assms(2) run(1) have "s' = emit_codes (map word_of_nat [0..<16384]) s"
      by (simp add: w)
    with assms(1) ramp_codes_le(1) show ?thesis by (simp add: codes_ok_emit_codes)
  next
    case False
    with assms(2) run(2) have "s' = emit_codes (map (\<lambda>k. 16383 - word_of_nat k) [0..<16384]) s"
      by (simp add: w)
    with assms(1) ramp_codes_le(2) show ?thesis by (simp add: codes_ok_emit_codes)
  qed
qed

lemma codes_ok_quickChangeTest:
  assumes "codes_ok s"
  shows "codes_ok (state_of (quickChangeTest n (word_of_int DAC_14_BIT) s))"
proof -
  have "list_all (\<lambda>w. w \<le> 0x3FFF)
          (map (\<lambda>i. if even i then 0 else (word_of_int DAC_14_BIT :: 16 word)) [0..<n])"
    by (induction n) (simp_all add: DAC_14_BIT_def)
  with assms show ?thesis
    by (simp add: codes_ok_def quickChangeTest_transfers quickChangeTest_table)
qed

lemma codes_ok_loop_run:
  assumes "codes_ok s" and "loop_run n P c s = Some (Inr r)"
  shows "codes_ok (state_of r)"
proof -
  from assms(2) obtain s1 where s1: "(if MODE_OUTPUT_SINE_WAVE c then sine_step s else Inr s) = Inr s1"
    by (auto simp: loop_run_def split: sum.splits)
  then have ok1: "codes_ok s1"
    using assms(1) codes_ok_sine_step [of s s1] by (auto split: if_splits)
  from assms(2) s1 obtain s2 where
    s2: "(if MODE_OUTPUT_FULL_RANGE c then fullRangeTest P True (word_of_int DAC_14_BIT) s1
          else Some s1) = Some s2"
    by (auto simp: loop_run_def split: option.splits)
  then have ok2: "codes_ok s2"
    using ok1 codes_ok_fullRangeTest [of s1 P True s2] by (auto split: if_splits)
  from assms(2) s1 s2 have
    "r = (if MODE_OUTPUT_QUICK_CHANGE c then quickChangeTest n (word_of_int DAC_14_BIT) s2
          else Returned s2)"
    by (auto simp: loop_run_def split: option.splits)
  with ok2 show ?thesis by (simp add: codes_ok_quickChangeTest)
qed

lemma loop_run_total:
  assumes "tableCounter s < TABLE_SIZE"
  shows "\<exists>r. loop_run n P c s = Some (Inr r)"
proof -
  from sine_step_run [OF assms] obtain s' where "sine_step s = Inr s'" by blast
  then obtain s1 where s1: "(if MODE_OUTPUT_SINE_WAVE c then sine_step s else Inr s) = Inr s1"
    by (cases "MODE_OUTPUT_SINE_WAVE c") simp_all
  have "unat (word_of_int DAC_14_BIT :: 16 word) < 65535" by (simp add: DAC_14_BIT_def)
  from fullRangeTest_run(1) [OF this, of P s1] obtain s2 where
    s2: "(if MODE_OUTPUT_FULL_RANGE c then fullRangeTest P True (word_of_int DAC_14_BIT) s1
          else Some s1) = Some s2"
    by (cases "MODE_OUTPUT_FULL_RANGE c") simp_all
  show ?thesis unfolding loop_run_def s1 sum.case s2 option.case by blast
qed

lemma codes_ok_loop:
  assumes "codes_ok s" and "loop P c s = Some (Inr s')"
  shows "codes_ok s'"
proof -
  have nq: "\<not> MODE_OUTPUT_QUICK_CHANGE c"
    using assms(2) loop_toggle_never_returns [of c P s s'] by blast
  note l = assms(2) [unfolded loop_no_toggle [OF nq]]
  from l obtain s1 where s1: "(if MODE_OUTPUT_SINE_WAVE c then sine_step s else Inr s) = Inr s1"
    by (auto split: sum.splits)
  then have ok1: "codes_ok s1"
    using assms(1) codes_ok_sine_step [of s s1] by (auto split: if_splits)
  from l s1 have
    "(if MODE_OUTPUT_FULL_RANGE c then fullRangeTest P True (word_of_int DAC_14_BIT) s1
          else Some s1) = Some s'"
    by (auto split: option.splits)
  then show ?thesis
    using ok1 codes_ok_fullRangeTest [of s1 P True s'] by (auto split: if_splits)
qed

lemma codes_ok_loop_iter:
  assumes "codes_ok s" and "loop_iter P c n s = Some (Inr s')"
  shows "codes_ok s'"
  using assms
proof (induction n arbitrary: s)
  case 0
  then show ?case by simp
next
  case (Suc n)
  from Suc.prems(2) obtain s1 where s1: "loop P c s = Some (Inr s1)"
    and rest: "loop_iter P c n s1 = Some (Inr s')"
    by (auto split: option.splits sum.splits)
  from Suc.prems(1) s1 have "codes_ok s1" by (rule codes_ok_loop)
  then show ?case using rest by (rule Suc.IH)
qed

lemma codes_ok_top_bits:
  assumes "codes_ok s"
  shows "list_all (\<lambda>w. w AND 0xC000 = 0) (transfers (bus s))"
  using assms by (simp add: codes_ok_def top_bits_zero_iff)

text \<open>
  Claim C3. Every code passed to \<^verbatim>\<open>SPI.transfer16\<close> is at most \<open>0x3FFF\<close>, that is, has
  its top two bits zero. The converter never returns more, whatever its arguments.
  The invariant \<open>codes_ok\<close> holds after \<open>setup\<close> from the initial state and is kept by
  the sine step, by the ramp in either direction, and by \<open>quickChangeTest\<close> through any
  number of passes of its loop. So it holds of the state of every run of \<^verbatim>\<open>loop\<close>, in
  every combination of the four modes and after any number of passes of the quick-change
  loop, and every run from a state with its cursor inside the table has such a state;
  it is kept by every call of \<^verbatim>\<open>loop\<close> that returns and by every sequence of such calls.
\<close>

theorem bus_codes_fit:
  "(dacBipolarVoltageToCode bits vref vout = Inr code \<longrightarrow> code \<le> 0x3FFF)
   \<and> (setup_sketch P c initial_state = Inr s0 \<longrightarrow> codes_ok s0)
   \<and> (codes_ok s \<and> sine_step s = Inr s1 \<longrightarrow> codes_ok s1)
   \<and> (codes_ok s \<and> fullRangeTest P cntUp (word_of_int DAC_14_BIT) s = Some s2 \<longrightarrow> codes_ok s2)
   \<and> (codes_ok s \<longrightarrow> codes_ok (state_of (quickChangeTest n (word_of_int DAC_14_BIT) s)))
   \<and> (codes_ok s \<and> loop_run n P c s = Some (Inr r) \<longrightarrow> codes_ok (state_of r))
   \<and> (codes_ok s \<and> tableCounter s < TABLE_SIZE \<longrightarrow> (\<exists>r'. loop_run n P c s = Some (Inr r')))
   \<and> (codes_ok s \<and> loop P c s = Some (Inr s3) \<longrightarrow> codes_ok s3)
   \<and> (codes_ok s \<and> loop_iter P c k s = Some (Inr s4) \<longrightarrow> codes_ok s4)
   \<and> (codes_ok s \<longrightarrow> list_all (\<lambda>w. w \<le> 0x3FFF) (transfers (bus s))
                     \<and> list_all (\<lambda>w. w AND 0xC000 = 0) (transfers (bus s)))"
proof (intro conjI impI)
  assume "dacBipolarVoltageToCode bits vref vout = Inr code"
  then show "code \<le> 0x3FFF" by (rule dac_range)
next
  assume "setup_sketch P c initial_state = Inr s0"
  with codes_ok_initial show "codes_ok s0" by (rule codes_ok_setup)
next
  assume "codes_ok s \<and> sine_step s = Inr s1"
  then show "codes_ok s1" by (elim conjE) (rule codes_ok_sine_step)
next
  assume "codes_ok s \<and> fullRangeTest P cntUp (word_of_int DAC_14_BIT) s = Some s2"
  then show "codes_ok s2" by (elim conjE) (rule codes_ok_fullRangeTest)
next
  assume "codes_ok s"
  then show "codes_ok (state_of (quickChangeTest n (word_of_int DAC_14_BIT) s))"
    by (rule codes_ok_quickChangeTest)
next
  assume "codes_ok s \<and> loop_run n P c s = Some (Inr r)"
  then show "codes_ok (state_of r)" by (elim conjE) (rule codes_ok_loop_run)
next
  assume "codes_ok s \<and> tableCounter s < TABLE_SIZE"
  then show "\<exists>r'. loop_run n P c s = Some (Inr r')" by (elim conjE) (rule loop_run_total)
next
  assume "codes_ok s \<and> loop P c s = Some (Inr s3)"
  then show "codes_ok s3" by (elim conjE) (rule codes_ok_loop)
next
  assume "codes_ok s \<and> loop_iter P c k s = Some (Inr s4)"
  then show "codes_ok s4" by (elim conjE) (rule codes_ok_loop_iter)
next
  assume "codes_ok s"
  then show "list_all (\<lambda>w. w \<le> 0x3FFF) (transfers (bus s))" by (simp add: codes_ok_def)
next
  assume "codes_ok s"
  then show "list_all (\<lambda>w. w AND 0xC000 = 0) (transfers (bus s))" by (rule codes_ok_top_bits)
qed

theorem bus_codes_fit_witness:
  "dacBipolarVoltageToCode 14 (fp_lit binary32 4096 1000) (fp_neg (fp_lit binary32 1000 1000)) = Inr 6192
   \<and> (6192 :: 16 word) \<le> 0x3FFF
   \<and> setup_sketch \<lparr>int_bits = 32, dbl = binary64, sinf = (\<lambda>x. x)\<rparr> sketch_config initial_state
       = Inr (emit SpiBeginTransaction (emit SpiBegin (emit (DigitalWrite True) (emit PinModeOutput initial_state))))
   \<and> codes_ok (emit SpiBeginTransaction (emit SpiBegin (emit (DigitalWrite True) (emit PinModeOutput initial_state))))
   \<and> codes_ok initial_state
   \<and> tableCounter initial_state < TABLE_SIZE
   \<and> sine_step initial_state = Inr ((write_code 0 initial_state)\<lparr>tableCounter := 1\<rparr>)
   \<and> codes_ok ((write_code 0 initial_state)\<lparr>tableCounter := 1\<rparr>)
   \<and> fullRangeTest \<lparr>int_bits = 32, dbl = binary64, sinf = (\<lambda>x. x)\<rparr> False (word_of_int DAC_14_BIT) initial_state
       = Some (emit_codes (map (\<lambda>k. 16383 - word_of_nat k) [0..<16384]) initial_state)
   \<and> codes_ok (emit_codes (map (\<lambda>k. 16383 - word_of_nat k) [0..<16384]) initial_state)
   \<and> loop_run 2 \<lparr>int_bits = 32, dbl = binary64, sinf = (\<lambda>x. x)\<rparr>
        \<lparr>MODE_OUTPUT_SINGLE_VALUE = False, MODE_OUTPUT_FULL_RANGE = False,
         MODE_OUTPUT_SINE_WAVE = False, MODE_OUTPUT_QUICK_CHANGE = True\<rparr> initial_state
       = Some (Inr (quickChangeTest 2 (word_of_int DAC_14_BIT) initial_state))
   \<and> transfers (bus (state_of (quickChangeTest 2 (word_of_int DAC_14_BIT) initial_state))) = [0, 16383]
   \<and> codes_ok (state_of (quickChangeTest 2 (word_of_int DAC_14_BIT) initial_state))
   \<and> loop \<lparr>int_bits = 32, dbl = binary64, sinf = (\<lambda>x. x)\<rparr> sketch_config initial_state
       = Some (Inr (emit_codes (map word_of_nat [0..<16384]) initial_state))
   \<and> codes_ok (emit_codes (map word_of_nat [0..<16384]) initial_state)
   \<and> loop_iter \<lparr>int_bits = 32, dbl = binary64, sinf = (\<lambda>x. x)\<rparr> sketch_config 1 initial_state
       = Some (Inr (emit_codes (map word_of_nat [0..<16384]) initial_state))
   \<and> list_all (\<lambda>w. w AND 0xC000 = 0) (transfers (bus initial_state))"
proof -
  let ?P = "\<lparr>int_bits = 32, dbl = binary64, sinf = (\<lambda>x. x)\<rparr>"
  let ?q = "\<lparr>MODE_OUTPUT_SINGLE_VALUE = False, MODE_OUTPUT_FULL_RANGE = False,
         MODE_OUTPUT_SINE_WAVE = False, MODE_OUTPUT_QUICK_CHANGE = True\<rparr>"
  let ?s0 = "emit SpiBeginTransaction (emit SpiBegin (emit (DigitalWrite True) (emit PinModeOutput initial_state)))"
  let ?s1 = "(write_code 0 initial_state)\<lparr>tableCounter := 1\<rparr>"
  let ?s2 = "emit_codes (map (\<lambda>k. 16383 - word_of_nat k) [0..<16384]) initial_state"
  let ?s3 = "emit_codes (map word_of_nat [0..<16384]) initial_state"
  let ?r = "quickChangeTest 2 (word_of_int DAC_14_BIT) initial_state"
  have h0: "setup_sketch ?P sketch_config initial_state = Inr ?s0"
    by (simp add: setup_sketch_def sketch_config_def)
  have hi: "codes_ok initial_state" by (rule codes_ok_initial)
  have ht: "tableCounter initial_state < TABLE_SIZE"
    by (simp add: initial_state_def TABLE_SIZE_def)
  have h1: "sine_step initial_state = Inr ?s1"
    by (simp add: sine_step_def initial_state_def TABLE_SIZE_def write_code_def emit_def Let_def
          word_le_nat_alt)
  have w: "(word_of_int DAC_14_BIT :: 16 word) = 16383" by (simp add: DAC_14_BIT_def)
  have u: "unat (16383 :: 16 word) < 65535" "unat (16383 :: 16 word) + 1 = 16384" by simp_all
  have h2: "fullRangeTest ?P False (word_of_int DAC_14_BIT) initial_state = Some ?s2"
    unfolding w using fullRangeTest_run(2) [OF u(1), of ?P initial_state] unfolding u(2) .
  have h3: "loop ?P sketch_config initial_state = Some (Inr ?s3)" by (rule loop_ramp)
  have h4: "loop_iter ?P sketch_config 1 initial_state = Some (Inr ?s3)"
    by (simp add: h3)
  have h5: "loop_run 2 ?P ?q initial_state = Some (Inr ?r)"
    by (simp add: loop_run_def)
  have h6: "transfers (bus (state_of ?r)) = [0, 16383]"
    by (simp add: quickChangeTest_def quickChange_body_def emit_def initial_state_def
          numeral_2_eq_2 DAC_14_BIT_def Let_def)
  note T = bus_codes_fit [where P = ?P and c = sketch_config and s = initial_state
      and bits = 14 and vref = "fp_lit binary32 4096 1000" and vout = "fp_neg (fp_lit binary32 1000 1000)"
      and code = 6192 and ?s0.0 = ?s0 and ?s1.0 = ?s1 and ?s2.0 = ?s2 and ?s3.0 = ?s3 and ?s4.0 = ?s3
      and cntUp = False and k = 1 and n = 2]
  have q: "codes_ok (state_of ?r)"
    using bus_codes_fit [where P = ?P and c = ?q and s = initial_state and n = 2 and r = ?r] hi h5
    by blast
  from T dac_at_minus_one h0 hi ht h1 h2 h3 h4 h5 h6 q show ?thesis
    by (simp only: simp_thms)
qed

section \<open>The waveform table\<close>

lemma buildLUT_body_unfold:
  "buildLUT_body P tableSize bits i s =
     (case fp_to_uint16 (lut_float P tableSize bits i) of
        None \<Rightarrow> Inl UndefinedConversion
      | Some code \<Rightarrow>
          if i < TABLE_SIZE then Inr (s\<lparr>sineLUT := (sineLUT s)[unat i := code AND 0x3FFF]\<rparr>)
          else Inl OutOfBounds)"
  by (simp add: buildLUT_body_def lut_float_def Let_def)

lemma lut_real_mono: "v \<le> w \<Longrightarrow> lut_real v \<le> lut_real w"
proof -
  assume le: "v \<le> w"
  let ?sr = "srnd binary32"
  note m = srnd_mono [OF binary32_simps(4)]
  have "v * (1 / 2) \<le> w * (1 / 2)" using le by simp
  then have "?sr (v * (1 / 2)) \<le> ?sr (w * (1 / 2))" by (rule m)
  then have "?sr (v * (1 / 2)) + 1 / 2 \<le> ?sr (w * (1 / 2)) + 1 / 2" by simp
  then have "?sr (?sr (v * (1 / 2)) + 1 / 2) \<le> ?sr (?sr (w * (1 / 2)) + 1 / 2)" by (rule m)
  then have "?sr (?sr (v * (1 / 2)) + 1 / 2) * 16383 \<le> ?sr (?sr (w * (1 / 2)) + 1 / 2) * 16383"
    by simp
  then have "?sr (?sr (?sr (v * (1 / 2)) + 1 / 2) * 16383)
      \<le> ?sr (?sr (?sr (w * (1 / 2)) + 1 / 2) * 16383)"
    by (rule m)
  then have "?sr (?sr (?sr (v * (1 / 2)) + 1 / 2) * 16383) + 1 / 2
      \<le> ?sr (?sr (?sr (w * (1 / 2)) + 1 / 2) * 16383) + 1 / 2"
    by simp
  then have "?sr (?sr (?sr (?sr (v * (1 / 2)) + 1 / 2) * 16383) + 1 / 2)
      \<le> ?sr (?sr (?sr (?sr (w * (1 / 2)) + 1 / 2) * 16383) + 1 / 2)"
    by (rule m)
  then show ?thesis unfolding lut_real_def by (rule trunc_mono)
qed

lemma lut_real_values:
  "lut_real 0 = 8192" "lut_real 1 = 16383" "lut_real (- 1) = 0"
proof -
  let ?sr = "srnd binary32"
  have half: "?sr (1 / 2) = 1 / 2" using srnd32_half_int [of 1] by simp
  have mhalf: "?sr (- (1 / 2)) = - (1 / 2)" using srnd32_half_int [of "- 1"] by simp
  have one: "?sr 1 = 1" using srnd32_int [of 1] by simp
  have a: "?sr (16383 / 2) = 16383 / 2" using srnd32_half_int [of 16383] by simp
  have b: "?sr 8192 = 8192" using srnd32_int [of 8192] by simp
  have c: "?sr 16383 = 16383" using srnd32_int [of 16383] by simp
  have d: "?sr (32767 / 2) = 32767 / 2" using srnd32_half_int [of 32767] by simp
  show "lut_real 0 = 8192"
    by (simp add: lut_real_def srnd_zero half a b trunc_def)
  show "lut_real 1 = 16383"
    by (simp add: lut_real_def half one c d trunc_def)
  show "lut_real (- 1) = 0"
    by (simp add: lut_real_def mhalf srnd_zero half trunc_def)
qed

lemma lut_real_below_one: "lut_real (16777215 / 16777216) = 16383"
proof -
  let ?sr = "srnd binary32"
  have a: "?sr (16777215 / 33554432) = 16777215 / 33554432"
    using srnd_exact(1) [of 16777215 binary32 "- 25"] by (simp add: binary32_simps)
  have "round_mag binary32 (33554431 / 33554432) = (16777216, - 24)"
    by (simp add: fp_eval)
  then have "rnd binary32 (33554431 / 33554432) = 1" by (simp add: rnd_def)
  then have b: "?sr (33554431 / 33554432) = 1" by (simp add: srnd_def)
  have c: "?sr 16383 = 16383" using srnd32_int [of 16383] by simp
  have d: "?sr (32767 / 2) = 32767 / 2" using srnd32_half_int [of 32767] by simp
  show ?thesis
    by (simp add: lut_real_def a b c d trunc_def)
qed
lemma fp_le_bounds_finite:
  assumes "fp_le (Finite s m e) x" and "fp_le x (Finite t n f)"
  shows "is_finite x" and "fval s m e \<le> valof x" and "valof x \<le> fval t n f"
  using assms by (cases x; simp)+

lemma lut_real_range:
  assumes "- 1 \<le> v" and "v \<le> 1"
  shows "0 \<le> lut_real v" and "lut_real v \<le> 16383"
  using lut_real_mono [OF assms(1)] lut_real_mono [OF assms(2)] by (simp_all add: lut_real_values)

lemma lut_float_val:
  assumes lo: "fp_le (Finite True 8388608 (- 23)) (sinf P (theta P i N))"
    and hi: "fp_le (sinf P (theta P i N)) (Finite False 8388608 (- 23))"
  shows "fp_to_uint16 (lut_float P N (word_of_int DAC_14_BIT) i)
           = Some (word_of_int (lut_real (valof (sinf P (theta P i N)))))"
proof -
  let ?sr = "srnd binary32"
  define x where "x = sinf P (theta P i N)"
  define v where "v = valof x"
  have x: "is_finite x" and v: "- 1 \<le> v" "v \<le> 1"
    using fp_le_bounds_finite [OF lo hi] by (simp_all add: x_def v_def fval_def)
  have kb: "0 \<le> (127 :: nat)" "1 \<le> (127 :: nat)" "15 \<le> (127 :: nat)" "16 \<le> (127 :: nat)"
    by simp_all
  note h = lit_0_5f_val
  define t1 where "t1 = fp_mul binary32 x lit_0_5f"
  have b1: "\<bar>valof x * valof lit_0_5f\<bar> \<le> 2 ^ 0"
    using v by (simp add: h v_def [symmetric] abs_le_iff)
  have t1: "is_finite t1" "valof t1 = ?sr (v * (1 / 2))" "\<bar>valof t1\<bar> \<le> 2 ^ 0"
    unfolding t1_def
    using fp_mul_val [OF x h(1) rnd32_pow2(1) [OF b1 kb(1)]] rnd32_pow2(2) [OF b1 kb(1)]
    by (simp_all add: h(2) v_def)
  define t2 where "t2 = fp_add binary32 t1 lit_0_5f"
  have b2: "\<bar>valof t1 + valof lit_0_5f\<bar> \<le> 2 ^ 1"
    using t1(3) by (simp add: h abs_le_iff)
  have t2: "is_finite t2" "valof t2 = ?sr (?sr (v * (1 / 2)) + 1 / 2)" "\<bar>valof t2\<bar> \<le> 2 ^ 1"
    unfolding t2_def
    using fp_add_val [OF t1(1) h(1) rnd32_pow2(1) [OF b2 kb(2)]] rnd32_pow2(2) [OF b2 kb(2)]
    by (simp_all add: h(2) t1(2))
  define fb where "fb = fp_of_nat binary32 (unat (word_of_int DAC_14_BIT :: 16 word))"
  have fbn: "unat (word_of_int DAC_14_BIT :: 16 word) = 16383" by (simp add: DAC_14_BIT_def)
  have "rnd binary32 (real 16383 * 2 powi 0) = real 16383 * 2 powi 0"
    by (rule rnd_exact) (simp_all add: binary32_simps)
  then have fbr: "rnd binary32 (real 16383) = 16383" by simp
  then have "rnd binary32 (real 16383) < 2 powi (emax binary32 + 1)"
    by (simp add: binary32_simps)
  then have fb: "is_finite fb" "valof fb = 16383"
    unfolding fb_def fbn using fbr by (simp_all add: fp_of_nat_val)
  define t3 where "t3 = fp_mul binary32 t2 fb"
  have "\<bar>valof t2 * valof fb\<bar> \<le> 2 ^ 1 * 16383"
    unfolding abs_mult using t2(3) by (intro mult_mono) (simp_all add: fb)
  then have b3: "\<bar>valof t2 * valof fb\<bar> \<le> 2 ^ 15" by simp
  have t3: "is_finite t3" "valof t3 = ?sr (?sr (?sr (v * (1 / 2)) + 1 / 2) * 16383)"
    "\<bar>valof t3\<bar> \<le> 2 ^ 15"
    unfolding t3_def
    using fp_mul_val [OF t2(1) fb(1) rnd32_pow2(1) [OF b3 kb(3)]] rnd32_pow2(2) [OF b3 kb(3)]
    by (simp_all add: fb(2) t2(2))
  define t4 where "t4 = fp_add binary32 t3 lit_0_5f"
  have b4: "\<bar>valof t3 + valof lit_0_5f\<bar> \<le> 2 ^ 16"
    using t3(3) by (simp add: h abs_le_iff)
  have t4: "is_finite t4" "valof t4 = ?sr (?sr (?sr (?sr (v * (1 / 2)) + 1 / 2) * 16383) + 1 / 2)"
    unfolding t4_def
    using fp_add_val [OF t3(1) h(1) rnd32_pow2(1) [OF b4 kb(4)]]
    by (simp_all add: h(2) t3(2))
  have tr: "fp_trunc t4 = Some (lut_real v)"
    using fp_trunc_val [OF t4(1)] by (simp add: t4(2) lut_real_def)
  have "0 \<le> lut_real v" "lut_real v < 2 ^ 16"
    using lut_real_range [OF v] by simp_all
  then have "fp_to_uint16 t4 = Some (word_of_int (lut_real v))"
    by (simp add: fp_to_uint16_def tr)
  moreover have "lut_float P N (word_of_int DAC_14_BIT) i = t4"
    by (simp add: lut_float_def t4_def t3_def t2_def t1_def fb_def x_def)
  ultimately show ?thesis by (simp add: v_def x_def)
qed
lemma buildLUT_loop_entries:
  fixes C :: "nat \<Rightarrow> 16 word"
  assumes N: "N \<le> TABLE_SIZE"
    and conv: "\<And>k. k < unat N \<Longrightarrow> fp_to_uint16 (lut_float P N bits (word_of_nat k)) = Some (C k)"
    and len: "length (sineLUT s) = unat TABLE_SIZE"
    and i: "i \<le> N"
  shows "\<exists>s'. buildLUT_loop P N bits i s = Inr s'
    \<and> length (sineLUT s') = unat TABLE_SIZE
    \<and> (\<forall>k. unat i \<le> k \<and> k < unat N \<longrightarrow> sineLUT s' ! k = C k AND 0x3FFF)
    \<and> (\<forall>k < unat i. sineLUT s' ! k = sineLUT s ! k)
    \<and> bus s' = bus s \<and> tableCounter s' = tableCounter s"
  using len i
proof (induction "unat N - unat i" arbitrary: i s)
  case 0
  then have "unat i = unat N" by (simp add: word_le_nat_alt)
  then have "\<not> i < N" by (simp add: word_less_nat_alt)
  then have "buildLUT_loop P N bits i s = Inr s" by (subst buildLUT_loop.simps) simp
  with 0 \<open>unat i = unat N\<close> show ?case by auto
next
  case (Suc d)
  then have lt: "unat i < unat N" by simp
  then have iN: "i < N" by (simp add: word_less_nat_alt)
  have Nb: "unat N \<le> 16" using N by (simp add: word_le_nat_alt TABLE_SIZE_def)
  have iT: "i < TABLE_SIZE" using iN N by simp
  have u: "unat (i + 1) = unat i + 1" using lt Nb by (intro unat_succ_16) simp
  have c: "fp_to_uint16 (lut_float P N bits i) = Some (C (unat i))"
    using conv [OF lt] by simp
  define s1 where "s1 = s\<lparr>sineLUT := (sineLUT s)[unat i := C (unat i) AND 0x3FFF]\<rparr>"
  have body: "buildLUT_body P N bits i s = Inr s1"
    using iT by (simp add: buildLUT_body_unfold c s1_def)
  have len1: "length (sineLUT s1) = unat TABLE_SIZE" using Suc.prems(1) by (simp add: s1_def)
  have i1: "i + 1 \<le> N" using lt u by (simp add: word_le_nat_alt)
  have d: "d = unat N - unat (i + 1)" using Suc.hyps(2) u by simp
  from Suc.hyps(1) [OF d len1 i1] obtain s' where s':
    "buildLUT_loop P N bits (i + 1) s1 = Inr s'"
    "length (sineLUT s') = unat TABLE_SIZE"
    "\<And>k. unat (i + 1) \<le> k \<Longrightarrow> k < unat N \<Longrightarrow> sineLUT s' ! k = C k AND 0x3FFF"
    "\<And>k. k < unat (i + 1) \<Longrightarrow> sineLUT s' ! k = sineLUT s1 ! k"
    "bus s' = bus s1" "tableCounter s' = tableCounter s1"
    by blast
  have run: "buildLUT_loop P N bits i s = Inr s'"
    using iN by (subst buildLUT_loop.simps) (simp add: body s'(1))
  have il: "unat i < length (sineLUT s)"
    using lt Nb Suc.prems(1) by (simp add: TABLE_SIZE_def)
  have at: "sineLUT s' ! k = C k AND 0x3FFF" if "unat i \<le> k" "k < unat N" for k
  proof (cases "k = unat i")
    case True
    then have "sineLUT s' ! k = sineLUT s1 ! k" using u by (intro s'(4)) simp
    also have "\<dots> = C k AND 0x3FFF" using il True by (simp add: s1_def)
    finally show ?thesis .
  next
    case False
    with that u show ?thesis by (intro s'(3)) simp_all
  qed
  have below: "sineLUT s' ! k = sineLUT s ! k" if "k < unat i" for k
  proof -
    have "sineLUT s' ! k = sineLUT s1 ! k" using that u by (intro s'(4)) simp
    also have "\<dots> = sineLUT s ! k" using that by (simp add: s1_def)
    finally show ?thesis .
  qed
  have "bus s' = bus s" "tableCounter s' = tableCounter s"
    using s'(5,6) by (simp_all add: s1_def)
  with run s'(2) at below show ?case by blast
qed

lemma mk_fp_zero: "mk_fp F s 0 = Finite s 0 (e_least F)"
proof -
  have "shift_of F 0 = 0" by (simp add: shift_of_def floorlog_def)
  moreover have "rne 0 = 0" using rne_of_int [of 0] by simp
  ultimately have "round_mag F 0 = (0, e_least F)"
    by (simp add: round_mag_def)
  moreover have "\<not> (2 :: real) powi (emax F + 1) \<le> 0"
    by (simp add: not_le)
  ultimately show ?thesis by (simp add: mk_fp_def)
qed

lemma mk_fp_shape:
  assumes "rnd F x < 2 powi (emax F + 1)"
  shows "\<exists>m e. mk_fp F s x = Finite s m e \<and> real m * 2 powi e = rnd F x"
  using assms by (auto simp: mk_fp_def rnd_def split: prod.splits)

lemma rnd_pow2_le:
  assumes "0 < prec F" and "e_least F \<le> int k" and "int k \<le> emax F" and "0 \<le> x" and "x \<le> 2 ^ k"
  shows "rnd F x \<le> 2 ^ k" and "rnd F x < 2 powi (emax F + 1)"
proof -
  have "(1 :: nat) < 2 ^ prec F" using assms(1) by (intro one_less_power) simp_all
  then have "rnd F (real 1 * 2 powi (int k)) = real 1 * 2 powi (int k)"
    using assms(2) by (rule rnd_exact)
  then have ex: "rnd F (2 ^ k) = 2 ^ k" by simp
  have "rnd F x \<le> rnd F (2 ^ k)" using assms(1,4,5) by (rule rnd_mono)
  then show le: "rnd F x \<le> 2 ^ k" by (simp only: ex)
  have "(2 :: real) powi (int k) < 2 powi (emax F + 1)"
    using assms(3) by (intro power_int_strict_increasing) simp_all
  with le show "rnd F x < 2 powi (emax F + 1)" by simp
qed

lemma theta_zero_general:
  assumes p: "0 < prec (dbl P)" and e: "e_least (dbl P) \<le> 0" and x: "4 \<le> emax (dbl P)"
  shows "theta P 0 TABLE_SIZE = Finite False 0 (- 149)"
proof -
  let ?D = "dbl P"
  note b = rnd_pow2_le [OF p]
  have e1: "e_least ?D \<le> int 1" "e_least ?D \<le> int 2" "e_least ?D \<le> int 3" "e_least ?D \<le> int 4"
    using e by simp_all
  have x1: "int 1 \<le> emax ?D" "int 2 \<le> emax ?D" "int 3 \<le> emax ?D" "int 4 \<le> emax ?D"
    using x by simp_all
  have one: "(1 :: nat) < 2 ^ prec ?D" using p by (intro one_less_power) simp_all
  have "rnd binary32 (real 1 * 2 powi 1) = real 1 * 2 powi 1"
    by (rule rnd_exact) (simp_all add: binary32_simps)
  then have r2: "rnd binary32 2 = 2" by simp
  then have "rnd binary32 2 < 2 powi (emax binary32 + 1)" by (simp add: binary32_simps)
  from mk_fp_shape [OF this, where s = False] obtain m2 e2 where
    "mk_fp binary32 False 2 = Finite False m2 e2" "real m2 * 2 powi e2 = rnd binary32 2"
    by blast
  then have two: "lit_2_0f = Finite False m2 e2" and v2: "real m2 * 2 powi e2 = 2"
    by (simp_all add: lit_2_0f_def fp_lit_def r2)
  have rD2: "rnd ?D 2 = 2" using rnd_exact [OF one e1(1)] by simp
  have "rnd ?D 2 < 2 powi (emax ?D + 1)"
    using b(2) [OF e1(1) x1(1), of 2] by simp
  from mk_fp_shape [OF this, where s = False] obtain m2' e2' where
    "mk_fp ?D False 2 = Finite False m2' e2'" "real m2' * 2 powi e2' = rnd ?D 2"
    by blast
  then have two': "fp_cast ?D lit_2_0f = Finite False m2' e2'"
    and v2': "real m2' * 2 powi e2' = 2"
    by (simp_all add: two v2 rD2)
  let ?pi = "real 31415926535897932384626433832795 / real 10000000000000000000000000000000"
  have pib: "0 \<le> ?pi" "?pi \<le> 2 ^ 2" by simp_all
  note pr = b [OF e1(2) x1(2) pib]
  from mk_fp_shape [OF pr(2), where s = False] obtain mp ep where
    "mk_fp ?D False ?pi = Finite False mp ep" and vp: "real mp * 2 powi ep = rnd ?D ?pi"
    by blast
  then have pi: "PI P = Finite False mp ep"
    by (simp only: PI_def fp_lit_def)
  have prod: "0 \<le> 2 * rnd ?D ?pi" "2 * rnd ?D ?pi \<le> 2 ^ 3"
    using pr(1) rnd_nonneg [of ?D ?pi] by simp_all
  from mk_fp_shape [OF b(2) [OF e1(3) x1(3) prod], where s = False] obtain mx ex where
    "mk_fp ?D False (2 * rnd ?D ?pi) = Finite False mx ex"
    by blast
  moreover have "\<bar>fval False m2' e2'\<bar> * \<bar>fval False mp ep\<bar> = 2 * rnd ?D ?pi"
    unfolding fval_abs v2' vp by (rule refl)
  ultimately have X: "fp_mul ?D (fp_cast ?D lit_2_0f) (PI P) = Finite False mx ex"
    unfolding two' pi by (simp only: fp_mul.simps simp_thms)
  have Z: "fp_of_nat ?D (unat (0 :: 16 word)) = Finite False 0 (e_least ?D)"
    by (simp add: fp_of_nat_def mk_fp_zero)
  have Y: "fp_mul ?D (Finite False mx ex) (Finite False 0 (e_least ?D)) = Finite False 0 (e_least ?D)"
    by (simp add: fval_def mk_fp_zero)
  have sb: "0 \<le> real (unat TABLE_SIZE)" "real (unat TABLE_SIZE) \<le> 2 ^ 4"
    by (simp_all add: TABLE_SIZE_def)
  have r16: "rnd ?D (real (unat TABLE_SIZE)) = 16"
    using rnd_exact [OF one e1(4)] by (simp add: TABLE_SIZE_def)
  from mk_fp_shape [OF b(2) [OF e1(4) x1(4) sb], where s = False] obtain ms es where
    "mk_fp ?D False (real (unat TABLE_SIZE)) = Finite False ms es"
    "real ms * 2 powi es = rnd ?D (real (unat TABLE_SIZE))"
    by blast
  then have S: "fp_of_nat ?D (unat TABLE_SIZE) = Finite False ms es"
    and vs: "real ms * 2 powi es = 16"
    by (simp_all only: fp_of_nat_def r16)
  have Q: "fp_div ?D (Finite False 0 (e_least ?D)) (Finite False ms es) = Finite False 0 (e_least ?D)"
    using vs by (simp add: fval_def mk_fp_zero)
  have C: "fp_cast binary32 (Finite False 0 (e_least ?D)) = Finite False 0 (- 149)"
    by (simp add: mk_fp_zero binary32_simps)
  show ?thesis
    unfolding theta_def X Z Y S Q C by (rule refl)
qed

lemma theta_zero:
  assumes "dbl P = binary32 \<or> dbl P = binary64"
  shows "theta P 0 TABLE_SIZE = Finite False 0 (- 149)"
  using assms
  by (intro theta_zero_general) (auto simp: binary32_def binary64_def e_least_def)

lemma fp_eq_zero_val:
  assumes "fp_eq x lit_0_0f"
  shows "valof x = 0"
  using assms by (cases x) (simp_all add: lit_0_0f_eval fval_def)

lemma word_of_nat_less_TABLE_SIZE:
  assumes "k < unat TABLE_SIZE"
  shows "(word_of_nat k :: 16 word) < TABLE_SIZE"
  using assms by (simp add: TABLE_SIZE_def word_less_nat_alt unat_of_nat)

lemma word_of_int_and_mask_14:
  assumes "0 \<le> c" and "c \<le> 16383"
  shows "(word_of_int c :: 16 word) AND 0x3FFF = word_of_int c"
proof -
  have "(word_of_int c :: 16 word) \<le> 0x3FFF"
    using assms by (rule word_of_int_le_3FFF)
  then have "(word_of_int c :: 16 word) < 2 ^ 14" by (simp add: word_less_nat_alt word_le_nat_alt)
  then have "(word_of_int c :: 16 word) AND mask 14 = word_of_int c"
    by (rule less_mask_eq)
  then show ?thesis by (simp add: mask_eq_exp_minus_1)
qed

lemma buildLUT_entries:
  assumes len: "length (sineLUT s) = unat TABLE_SIZE"
    and rng: "\<And>i. i < TABLE_SIZE \<Longrightarrow>
           fp_le (Finite True 8388608 (- 23)) (sinf P (theta P i TABLE_SIZE))
         \<and> fp_le (sinf P (theta P i TABLE_SIZE)) (Finite False 8388608 (- 23))"
  shows "\<exists>s'. buildLUT P TABLE_SIZE (word_of_int DAC_14_BIT) s = Inr s'
    \<and> length (sineLUT s') = 16
    \<and> (\<forall>k < 16. sineLUT s' ! k
          = word_of_int (lut_real (valof (sinf P (theta P (word_of_nat k) TABLE_SIZE)))))"
proof -
  define C :: "nat \<Rightarrow> 16 word"
    where "C k = word_of_int (lut_real (valof (sinf P (theta P (word_of_nat k) TABLE_SIZE))))" for k
  have conv: "fp_to_uint16 (lut_float P TABLE_SIZE (word_of_int DAC_14_BIT) (word_of_nat k)) = Some (C k)"
    if "k < unat TABLE_SIZE" for k
    unfolding C_def
    using rng [OF word_of_nat_less_TABLE_SIZE [OF that]] by (intro lut_float_val) simp_all
  have msk: "C k AND 0x3FFF = C k" if "k < unat TABLE_SIZE" for k
  proof -
    let ?x = "sinf P (theta P (word_of_nat k) TABLE_SIZE)"
    note r = rng [OF word_of_nat_less_TABLE_SIZE [OF that]]
    have "- 1 \<le> valof ?x" "valof ?x \<le> 1"
      using fp_le_bounds_finite(2,3) [OF conjunct1 [OF r] conjunct2 [OF r]]
      by (simp_all add: fval_def)
    then have "0 \<le> lut_real (valof ?x)" "lut_real (valof ?x) \<le> 16383"
      by (rule lut_real_range)+
    then show ?thesis unfolding C_def by (rule word_of_int_and_mask_14)
  qed
  from buildLUT_loop_entries [where N = TABLE_SIZE and i = 0 and C = C, OF order_refl conv len]
  obtain s' where s': "buildLUT_loop P TABLE_SIZE (word_of_int DAC_14_BIT) 0 s = Inr s'"
    "length (sineLUT s') = unat TABLE_SIZE"
    "\<And>k. k < unat TABLE_SIZE \<Longrightarrow> sineLUT s' ! k = C k AND 0x3FFF"
    by auto
  have "sineLUT s' ! k = C k" if "k < 16" for k
    using s'(3) [of k] msk [of k] that by (simp add: TABLE_SIZE_def)
  then show ?thesis
    using s'(1,2) by (auto simp: buildLUT_def C_def TABLE_SIZE_def)
qed

lemma theta_quarter_binary32:
  assumes "dbl P = binary32"
  shows "theta P 4 TABLE_SIZE = Finite False 13176795 (- 23)"
proof -
  have two: "lit_2_0f = Finite False 8388608 (- 22)"
    by (simp add: lit_2_0f_def fp_eval)
  have c2: "fp_cast binary32 (Finite False 8388608 (- 22)) = Finite False 8388608 (- 22)"
    by (simp add: fp_eval)
  have pi: "fp_lit binary32 31415926535897932384626433832795 10000000000000000000000000000000
              = Finite False 13176795 (- 22)"
    by (simp add: fp_eval)
  have m1: "fp_mul binary32 (Finite False 8388608 (- 22)) (Finite False 13176795 (- 22))
              = Finite False 13176795 (- 21)"
    by (simp add: fp_eval)
  have n4: "fp_of_nat binary32 (unat (4 :: 16 word)) = Finite False 8388608 (- 21)"
    by (simp add: fp_eval)
  have m2: "fp_mul binary32 (Finite False 13176795 (- 21)) (Finite False 8388608 (- 21))
              = Finite False 13176795 (- 19)"
    by (simp add: fp_eval)
  have n16: "fp_of_nat binary32 (unat TABLE_SIZE) = Finite False 8388608 (- 19)"
    by (simp add: TABLE_SIZE_def fp_eval)
  have d: "fp_div binary32 (Finite False 13176795 (- 19)) (Finite False 8388608 (- 19))
              = Finite False 13176795 (- 23)"
    by (simp add: fp_eval)
  have c: "fp_cast binary32 (Finite False 13176795 (- 23)) = Finite False 13176795 (- 23)"
    by (simp add: fp_eval)
  show ?thesis
    unfolding theta_def assms PI_def two c2 pi m1 n4 m2 n16 d c by (rule refl)
qed

lemma rnd_between:
  assumes p: "0 < prec F"
    and a: "a < 2 ^ prec F" "e_least F \<le> i"
    and b: "b < 2 ^ prec F" "e_least F \<le> j"
    and lo: "real a * 2 powi i \<le> x" and hi: "x \<le> real b * 2 powi j"
  shows "real a * 2 powi i \<le> rnd F x" and "rnd F x \<le> real b * 2 powi j"
proof -
  have z: "0 \<le> real a * 2 powi i" by simp
  then have "rnd F (real a * 2 powi i) \<le> rnd F x" using p lo by (intro rnd_mono)
  then show "real a * 2 powi i \<le> rnd F x" by (simp only: rnd_exact [OF a])
  have "0 \<le> x" by (rule order_trans [OF z lo])
  then have "rnd F x \<le> rnd F (real b * 2 powi j)" using p hi by (intro rnd_mono)
  then show "rnd F x \<le> real b * 2 powi j" by (simp only: rnd_exact [OF b])
qed

lemma round_mag_squeeze:
  assumes lo: "a \<le> x" and hi: "x \<le> b"
    and ra: "round_mag F a = (m, e)" and rb: "round_mag F b = (m, e)"
  shows "round_mag F x = (m, e)"
proof -
  let ?y = "\<lambda>v :: real. v * 2 powi (- e_least F)"
  have y: "?y a \<le> ?y x" "?y x \<le> ?y b"
    using lo hi by (simp_all add: mult_right_mono)
  from ra rb have sa: "int (shift_of F (?y a)) + e_least F = e"
    and sb: "int (shift_of F (?y b)) + e_least F = e"
    and ma: "nat (rne (?y a / 2 ^ shift_of F (?y a))) = m"
    and mb: "nat (rne (?y b / 2 ^ shift_of F (?y b))) = m"
    by (simp_all add: round_mag_def Let_def)
  from sa sb have eq: "shift_of F (?y a) = shift_of F (?y b)" by simp
  have "shift_of F (?y a) \<le> shift_of F (?y x)" "shift_of F (?y x) \<le> shift_of F (?y b)"
    by (rule shift_of_mono [OF y(1)], rule shift_of_mono [OF y(2)])
  with eq have sx: "shift_of F (?y x) = shift_of F (?y a)" "shift_of F (?y b) = shift_of F (?y a)"
    by simp_all
  let ?s = "shift_of F (?y a)"
  have "rne (?y a / 2 ^ ?s) \<le> rne (?y x / 2 ^ ?s)" "rne (?y x / 2 ^ ?s) \<le> rne (?y b / 2 ^ ?s)"
    by (rule rne_mono [OF divide_right_mono [OF y(1)]], simp,
        rule rne_mono [OF divide_right_mono [OF y(2)]], simp)
  then have "nat (rne (?y a / 2 ^ ?s)) \<le> nat (rne (?y x / 2 ^ ?s))"
    "nat (rne (?y x / 2 ^ ?s)) \<le> nat (rne (?y b / 2 ^ ?s))"
    by simp_all
  with ma mb have "nat (rne (?y x / 2 ^ ?s)) = m" by (simp add: sx)
  then show ?thesis using sa by (simp add: round_mag_def Let_def sx)
qed

text \<open>
  The angle of index \<open>i\<close>: the \<^verbatim>\<open>double\<close> expression is finite and non-negative, with the
  value that four roundings of the exact operations give.
\<close>

lemma theta_shape:
  assumes p: "0 < prec (dbl P)" and e: "e_least (dbl P) \<le> 0" and x: "19 \<le> emax (dbl P)"
  shows "theta P i TABLE_SIZE = mk_fp binary32 False (theta_val (dbl P) (unat i))"
    and "0 \<le> theta_val (dbl P) (unat i)" and "theta_val (dbl P) (unat i) \<le> 2 ^ 19"
proof -
  let ?D = "dbl P"
  note b = rnd_pow2_le [OF p]
  have e1: "e_least ?D \<le> int 1" "e_least ?D \<le> int 2" "e_least ?D \<le> int 3" "e_least ?D \<le> int 4"
    "e_least ?D \<le> int 16" "e_least ?D \<le> int 19"
    using e by simp_all
  have x1: "int 1 \<le> emax ?D" "int 2 \<le> emax ?D" "int 3 \<le> emax ?D" "int 4 \<le> emax ?D"
    "int 16 \<le> emax ?D" "int 19 \<le> emax ?D"
    using x by simp_all
  have one: "(1 :: nat) < 2 ^ prec ?D" using p by (intro one_less_power) simp_all
  have "rnd binary32 (real 1 * 2 powi 1) = real 1 * 2 powi 1"
    by (rule rnd_exact) (simp_all add: binary32_simps)
  then have r2: "rnd binary32 2 = 2" by simp
  then have "rnd binary32 2 < 2 powi (emax binary32 + 1)" by (simp add: binary32_simps)
  from mk_fp_shape [OF this, where s = False] obtain m2 e2 where
    "mk_fp binary32 False 2 = Finite False m2 e2" "real m2 * 2 powi e2 = rnd binary32 2"
    by blast
  then have two: "lit_2_0f = Finite False m2 e2" and v2: "real m2 * 2 powi e2 = 2"
    by (simp_all add: lit_2_0f_def fp_lit_def r2)
  have rD2: "rnd ?D 2 = 2" using rnd_exact [OF one e1(1)] by simp
  have "rnd ?D 2 < 2 powi (emax ?D + 1)"
    using b(2) [OF e1(1) x1(1), of 2] by simp
  from mk_fp_shape [OF this, where s = False] obtain m2' e2' where
    "mk_fp ?D False 2 = Finite False m2' e2'" "real m2' * 2 powi e2' = rnd ?D 2"
    by blast
  then have two': "fp_cast ?D lit_2_0f = Finite False m2' e2'"
    and v2': "real m2' * 2 powi e2' = 2"
    by (simp_all add: two v2 rD2)
  let ?pi = "real 31415926535897932384626433832795 / real 10000000000000000000000000000000"
  have pib: "0 \<le> ?pi" "?pi \<le> 2 ^ 2" by simp_all
  note pr = b [OF e1(2) x1(2) pib]
  from mk_fp_shape [OF pr(2), where s = False] obtain mp ep where
    "mk_fp ?D False ?pi = Finite False mp ep" and vp: "real mp * 2 powi ep = rnd ?D ?pi"
    by blast
  then have pi: "PI P = Finite False mp ep"
    by (simp only: PI_def fp_lit_def)
  have prod: "0 \<le> 2 * rnd ?D ?pi" "2 * rnd ?D ?pi \<le> 2 ^ 3"
    using pr(1) rnd_nonneg [of ?D ?pi] by simp_all
  note xr = b [OF e1(3) x1(3) prod]
  from mk_fp_shape [OF xr(2), where s = False] obtain mx ex where
    "mk_fp ?D False (2 * rnd ?D ?pi) = Finite False mx ex"
    and vx: "real mx * 2 powi ex = rnd ?D (2 * rnd ?D ?pi)"
    by blast
  moreover have "\<bar>fval False m2' e2'\<bar> * \<bar>fval False mp ep\<bar> = 2 * rnd ?D ?pi"
    unfolding fval_abs v2' vp by (rule refl)
  ultimately have X: "fp_mul ?D (fp_cast ?D lit_2_0f) (PI P) = Finite False mx ex"
    unfolding two' pi by (simp only: fp_mul.simps simp_thms)
  have iu: "unat i \<le> 2 ^ 16" using unsigned_less [of i, where 'a = nat] by simp
  have ib: "0 \<le> real (unat i)" "real (unat i) \<le> 2 ^ 16"
  proof -
    show "0 \<le> real (unat i)" by (rule of_nat_0_le_iff)
    have "real (unat i) \<le> real (2 ^ 16)" using iu by (simp only: of_nat_le_iff)
    then show "real (unat i) \<le> 2 ^ 16" by (simp only: of_nat_power of_nat_numeral)
  qed
  note ir = b [OF e1(5) x1(5) ib]
  from mk_fp_shape [OF ir(2), where s = False] obtain mi ei where
    "mk_fp ?D False (real (unat i)) = Finite False mi ei"
    and vi: "real mi * 2 powi ei = rnd ?D (real (unat i))"
    by blast
  then have I: "fp_of_nat ?D (unat i) = Finite False mi ei"
    by (simp only: fp_of_nat_def)
  have yb: "0 \<le> rnd ?D (2 * rnd ?D ?pi) * rnd ?D (real (unat i))"
    "rnd ?D (2 * rnd ?D ?pi) * rnd ?D (real (unat i)) \<le> 2 ^ 19"
  proof -
    show "0 \<le> rnd ?D (2 * rnd ?D ?pi) * rnd ?D (real (unat i))"
      by (intro mult_nonneg_nonneg rnd_nonneg)
    have "rnd ?D (2 * rnd ?D ?pi) * rnd ?D (real (unat i)) \<le> 2 ^ 3 * 2 ^ 16"
      using xr(1) ir(1) by (intro mult_mono rnd_nonneg) simp_all
    then show "rnd ?D (2 * rnd ?D ?pi) * rnd ?D (real (unat i)) \<le> 2 ^ 19" by simp
  qed
  note yr = b [OF e1(6) x1(6) yb]
  from mk_fp_shape [OF yr(2), where s = False] obtain my ey where
    "mk_fp ?D False (rnd ?D (2 * rnd ?D ?pi) * rnd ?D (real (unat i))) = Finite False my ey"
    and vy: "real my * 2 powi ey = rnd ?D (rnd ?D (2 * rnd ?D ?pi) * rnd ?D (real (unat i)))"
    by blast
  moreover have "\<bar>fval False mx ex\<bar> * \<bar>fval False mi ei\<bar>
      = rnd ?D (2 * rnd ?D ?pi) * rnd ?D (real (unat i))"
    unfolding fval_abs vx vi by (rule refl)
  ultimately have Y: "fp_mul ?D (Finite False mx ex) (Finite False mi ei) = Finite False my ey"
    by (simp only: fp_mul.simps simp_thms)
  have sb: "0 \<le> real (unat TABLE_SIZE)" "real (unat TABLE_SIZE) \<le> 2 ^ 4"
    by (simp_all add: TABLE_SIZE_def)
  have r16: "rnd ?D (real (unat TABLE_SIZE)) = 16"
    using rnd_exact [OF one e1(4)] by (simp add: TABLE_SIZE_def)
  from mk_fp_shape [OF b(2) [OF e1(4) x1(4) sb], where s = False] obtain ms es where
    "mk_fp ?D False (real (unat TABLE_SIZE)) = Finite False ms es"
    "real ms * 2 powi es = rnd ?D (real (unat TABLE_SIZE))"
    by blast
  then have S: "fp_of_nat ?D (unat TABLE_SIZE) = Finite False ms es"
    and vs: "real ms * 2 powi es = 16"
    by (simp_all only: fp_of_nat_def r16)
  let ?q = "rnd ?D (rnd ?D (2 * rnd ?D ?pi) * rnd ?D (real (unat i))) / 16"
  have qb: "0 \<le> ?q" "?q \<le> 2 ^ 19"
    using yr(1) rnd_nonneg [of ?D "rnd ?D (2 * rnd ?D ?pi) * rnd ?D (real (unat i))"] by simp_all
  note qr = b [OF e1(6) x1(6) qb]
  from mk_fp_shape [OF qr(2), where s = False] obtain mq eq where
    "mk_fp ?D False ?q = Finite False mq eq"
    and vq: "real mq * 2 powi eq = rnd ?D ?q"
    by blast
  moreover have "\<bar>fval False my ey\<bar> / \<bar>fval False ms es\<bar> = ?q"
    unfolding fval_abs vy vs by (rule refl)
  moreover have "fval False ms es \<noteq> 0" using vs by (simp add: fval_def)
  ultimately have Q: "fp_div ?D (Finite False my ey) (Finite False ms es) = Finite False mq eq"
    by (simp only: fp_div.simps simp_thms if_False)
  have C: "fp_cast binary32 (Finite False mq eq) = mk_fp binary32 False (rnd ?D ?q)"
    by (simp only: fp_cast.simps vq)
  show "theta P i TABLE_SIZE = mk_fp binary32 False (theta_val (dbl P) (unat i))"
    unfolding theta_def theta_val_def X I Y S Q C by (rule refl)
  show "0 \<le> theta_val (dbl P) (unat i)"
    unfolding theta_val_def by (rule rnd_nonneg)
  show "theta_val (dbl P) (unat i) \<le> 2 ^ 19"
    unfolding theta_val_def by (rule qr(1))
qed

lemma theta_finite:
  assumes "dbl P = binary32 \<or> dbl P = binary64"
  shows "is_finite (theta P i TABLE_SIZE)"
proof -
  have c: "0 < prec (dbl P)" "e_least (dbl P) \<le> 0" "19 \<le> emax (dbl P)"
    using assms by (auto simp: binary32_def binary64_def e_least_def)
  note t = theta_shape [OF c, of i]
  have "\<bar>theta_val (dbl P) (unat i)\<bar> \<le> 2 ^ 19" using t(2,3) by simp
  then have "rnd binary32 \<bar>theta_val (dbl P) (unat i)\<bar> < 2 powi (emax binary32 + 1)"
    by (rule rnd32_pow2(1)) simp
  then have "rnd binary32 (theta_val (dbl P) (unat i)) < 2 powi (emax binary32 + 1)"
    using t(2) by simp
  then show ?thesis unfolding t(1) by (rule mk_fp_val(1))
qed

text \<open>
  At index 4 the four roundings in \<^verbatim>\<open>double\<close> keep the value between two numbers that the
  conversion to \<^verbatim>\<open>float\<close> rounds to the same float, provided \<^verbatim>\<open>double\<close> has at least 28
  bits of significand.
\<close>

lemma theta_val_quarter:
  assumes p: "28 \<le> prec D" and e: "e_least D \<le> - 27"
  shows "210828713 / 134217728 \<le> theta_val D 4" and "theta_val D 4 \<le> 13176795 / 8388608"
proof -
  let ?pi = "real 31415926535897932384626433832795 / real 10000000000000000000000000000000"
  have p0: "0 < prec D" using p by simp
  have "(2 :: nat) ^ 28 \<le> 2 ^ prec D" using p by (intro power_increasing) simp_all
  then have n: "210828713 < (2 :: nat) ^ prec D" "13176795 < (2 :: nat) ^ prec D"
    "1 < (2 :: nat) ^ prec D"
    by simp_all
  have el: "e_least D \<le> - 26" "e_least D \<le> - 22" "e_least D \<le> - 25" "e_least D \<le> - 21"
    "e_least D \<le> - 23" "e_least D \<le> - 19" "e_least D \<le> - 27" "e_least D \<le> 2"
    using e by simp_all
  have four: "rnd D (real 4) = 4" using rnd_exact [OF n(3) el(8)] by simp
  have b0: "real 210828713 * 2 powi (- 26) \<le> ?pi" "?pi \<le> real 13176795 * 2 powi (- 22)"
    by (simp_all add: power_int_minus field_simps)
  note r1 = rnd_between [OF p0 n(1) el(1) n(2) el(2) b0]
  have b1: "real 210828713 * 2 powi (- 25) \<le> 2 * rnd D ?pi"
    "2 * rnd D ?pi \<le> real 13176795 * 2 powi (- 21)"
    using r1 by (simp_all add: power_int_minus field_simps)
  note r2 = rnd_between [OF p0 n(1) el(3) n(2) el(4) b1]
  have b2: "real 210828713 * 2 powi (- 23) \<le> rnd D (2 * rnd D ?pi) * rnd D (real 4)"
    "rnd D (2 * rnd D ?pi) * rnd D (real 4) \<le> real 13176795 * 2 powi (- 19)"
    unfolding four using r2 by (simp_all add: power_int_minus field_simps)
  note r3 = rnd_between [OF p0 n(1) el(5) n(2) el(6) b2]
  have b3: "real 210828713 * 2 powi (- 27) \<le> rnd D (rnd D (2 * rnd D ?pi) * rnd D (real 4)) / 16"
    "rnd D (rnd D (2 * rnd D ?pi) * rnd D (real 4)) / 16 \<le> real 13176795 * 2 powi (- 23)"
    using r3 by (simp_all add: power_int_minus field_simps)
  note r4 = rnd_between [OF p0 n(1) el(7) n(2) el(5) b3]
  show "210828713 / 134217728 \<le> theta_val D 4" "theta_val D 4 \<le> 13176795 / 8388608"
    using r4 unfolding theta_val_def by (simp_all add: power_int_minus field_simps)
qed

lemma round_mag_quarter:
  "round_mag binary32 (210828713 / 134217728) = (13176795, - 23)"
  "round_mag binary32 (13176795 / 8388608) = (13176795, - 23)"
  by (simp_all add: fp_eval)

lemma theta_quarter_binary64:
  assumes "dbl P = binary64"
  shows "theta P 4 TABLE_SIZE = Finite False 13176795 (- 23)"
proof -
  have c: "0 < prec (dbl P)" "e_least (dbl P) \<le> 0" "19 \<le> emax (dbl P)"
    and d: "28 \<le> prec (dbl P)" "e_least (dbl P) \<le> - 27"
    using assms by (simp_all add: binary64_def e_least_def)
  note t = theta_shape [OF c, of 4]
  have u: "unat (4 :: 16 word) = 4" by simp
  note q = theta_val_quarter [OF d]
  have "round_mag binary32 (theta_val (dbl P) 4) = (13176795, - 23)"
    using q round_mag_quarter by (rule round_mag_squeeze)
  then show ?thesis
    unfolding t(1) u by (simp add: mk_fp_def binary32_def)
qed

lemma theta_quarter:
  assumes "dbl P = binary32 \<or> dbl P = binary64"
  shows "theta P 4 TABLE_SIZE = Finite False 13176795 (- 23)"
  using assms theta_quarter_binary32 theta_quarter_binary64 by blast

text \<open>
  Claim C7. The angle of line 149 is \<open>+0\<close> at index 0 and, at index \<open>N/4 = 4\<close>, the \<^verbatim>\<open>float\<close>
  \<open>13176795 * 2^-23\<close> nearest to \<open>\<pi>/2\<close>, whether \<^verbatim>\<open>double\<close> is binary32 or binary64. The
  library's \<^verbatim>\<open>sinf\<close> is a parameter: provided it returns zero at \<open>+0\<close>, at least
  \<open>1 - 2^-24\<close> at that \<^verbatim>\<open>float\<close>, and a value in \<open>[-1, 1]\<close> at every finite argument,
  \<open>buildLUT\<close> with table size 16 and the constant 16383 returns, entry 0 of the table is
  8192, entry 4 is 16383, and every one of the 16 entries is at most \<open>2^14 - 1\<close>.
\<close>

theorem buildLUT_table:
  assumes "dbl P = binary32 \<or> dbl P = binary64"
    and "length (sineLUT s) = unat TABLE_SIZE"
    and "fp_eq (sinf P (Finite False 0 (- 149))) lit_0_0f"
    and "fp_le (Finite False 16777215 (- 24)) (sinf P (Finite False 13176795 (- 23)))"
    and "\<And>x. is_finite x \<Longrightarrow>
           fp_le (Finite True 8388608 (- 23)) (sinf P x)
         \<and> fp_le (sinf P x) (Finite False 8388608 (- 23))"
  shows "theta P 0 TABLE_SIZE = Finite False 0 (- 149)
    \<and> theta P 4 TABLE_SIZE = Finite False 13176795 (- 23)
    \<and> (\<exists>s'. buildLUT P TABLE_SIZE (word_of_int DAC_14_BIT) s = Inr s'
          \<and> sineLUT s' ! 0 = 8192
          \<and> sineLUT s' ! (unat TABLE_SIZE div 4) = 16383
          \<and> length (sineLUT s') = 16
          \<and> list_all (\<lambda>w. w \<le> 2 ^ 14 - 1) (sineLUT s'))"
proof -
  note t0 = theta_zero [OF assms(1)]
  note t4 = theta_quarter [OF assms(1)]
  have rng: "fp_le (Finite True 8388608 (- 23)) (sinf P (theta P i TABLE_SIZE))
         \<and> fp_le (sinf P (theta P i TABLE_SIZE)) (Finite False 8388608 (- 23))" for i
    using theta_finite [OF assms(1), of i] by (rule assms(5))
  from buildLUT_entries [OF assms(2) rng] obtain s' where
    run: "buildLUT P TABLE_SIZE (word_of_int DAC_14_BIT) s = Inr s'"
    and len: "length (sineLUT s') = 16"
    and at: "\<And>k. k < 16 \<Longrightarrow> sineLUT s' ! k
          = word_of_int (lut_real (valof (sinf P (theta P (word_of_nat k) TABLE_SIZE))))"
    by blast
  have "valof (sinf P (theta P 0 TABLE_SIZE)) = 0"
    unfolding t0 using assms(3) by (rule fp_eq_zero_val)
  then have e0: "sineLUT s' ! 0 = 8192"
    using at [of 0] by (simp add: lut_real_values)
  let ?x = "sinf P (theta P 4 TABLE_SIZE)"
  have lo: "fp_le (Finite False 16777215 (- 24)) ?x" unfolding t4 by (rule assms(4))
  have b4: "16777215 / 16777216 \<le> valof ?x" "valof ?x \<le> 1"
    using fp_le_bounds_finite(2,3) [OF lo conjunct2 [OF rng [of 4]]]
    by (simp_all add: fval_def)
  have "lut_real (16777215 / 16777216) \<le> lut_real (valof ?x)"
    "lut_real (valof ?x) \<le> lut_real 1"
    using b4 by (simp_all only: lut_real_mono)
  then have "lut_real (valof ?x) = 16383"
    by (simp add: lut_real_below_one lut_real_values)
  then have e4: "sineLUT s' ! (unat TABLE_SIZE div 4) = 16383"
    using at [of 4] by (simp add: TABLE_SIZE_def)
  have "sineLUT s' ! k \<le> 2 ^ 14 - 1" if "k < 16" for k
  proof -
    let ?y = "sinf P (theta P (word_of_nat k) TABLE_SIZE)"
    note r = rng [of "word_of_nat k"]
    have "- 1 \<le> valof ?y" "valof ?y \<le> 1"
      using fp_le_bounds_finite(2,3) [OF conjunct1 [OF r] conjunct2 [OF r]]
      by (simp_all add: fval_def)
    then have "0 \<le> lut_real (valof ?y)" "lut_real (valof ?y) \<le> 16383"
      by (rule lut_real_range)+
    then have "(word_of_int (lut_real (valof ?y)) :: 16 word) \<le> 0x3FFF"
      by (rule word_of_int_le_3FFF)
    then show ?thesis using at [OF that] by simp
  qed
  then have "list_all (\<lambda>w. w \<le> 2 ^ 14 - 1) (sineLUT s')"
    by (simp add: list_all_length len)
  with run e0 e4 len t0 t4 show ?thesis by blast
qed

theorem buildLUT_table_witness:
  "fp_eq (sinf \<lparr>int_bits = 32, dbl = binary64,
               sinf = (\<lambda>x. if fp_lt x lit_0_5f then lit_0_0f else Finite False 8388608 (- 23))\<rparr>
            (Finite False 0 (- 149))) lit_0_0f
   \<and> fp_le (Finite False 16777215 (- 24))
        (sinf \<lparr>int_bits = 32, dbl = binary64,
               sinf = (\<lambda>x. if fp_lt x lit_0_5f then lit_0_0f else Finite False 8388608 (- 23))\<rparr>
           (Finite False 13176795 (- 23)))
   \<and> length (sineLUT initial_state) = unat TABLE_SIZE
   \<and> theta \<lparr>int_bits = 32, dbl = binary64,
               sinf = (\<lambda>x. if fp_lt x lit_0_5f then lit_0_0f else Finite False 8388608 (- 23))\<rparr>
         0 TABLE_SIZE = Finite False 0 (- 149)
   \<and> theta \<lparr>int_bits = 32, dbl = binary64,
               sinf = (\<lambda>x. if fp_lt x lit_0_5f then lit_0_0f else Finite False 8388608 (- 23))\<rparr>
         4 TABLE_SIZE = Finite False 13176795 (- 23)
   \<and> (\<exists>s'. buildLUT \<lparr>int_bits = 32, dbl = binary64,
               sinf = (\<lambda>x. if fp_lt x lit_0_5f then lit_0_0f else Finite False 8388608 (- 23))\<rparr>
              TABLE_SIZE (word_of_int DAC_14_BIT) initial_state = Inr s'
        \<and> sineLUT s' ! 0 = 8192
        \<and> sineLUT s' ! (unat TABLE_SIZE div 4) = 16383
        \<and> length (sineLUT s') = 16
        \<and> list_all (\<lambda>w. w \<le> 2 ^ 14 - 1) (sineLUT s'))"
proof -
  let ?P = "\<lparr>int_bits = 32, dbl = binary64,
             sinf = (\<lambda>x. if fp_lt x lit_0_5f then lit_0_0f else Finite False 8388608 (- 23))\<rparr>"
  have D: "dbl ?P = binary32 \<or> dbl ?P = binary64" by simp
  have L: "length (sineLUT initial_state) = unat TABLE_SIZE"
    by (simp add: initial_state_def)
  have Z: "fp_eq (sinf ?P (Finite False 0 (- 149))) lit_0_0f"
    by (simp add: lit_0_0f_eval lit_0_5f_eval fval_def)
  have Q: "fp_le (Finite False 16777215 (- 24)) (sinf ?P (Finite False 13176795 (- 23)))"
    by (simp add: lit_0_5f_eval fval_def)
  have R: "fp_le (Finite True 8388608 (- 23)) (sinf ?P x)
         \<and> fp_le (sinf ?P x) (Finite False 8388608 (- 23))" if "is_finite x" for x
    by (simp add: lit_0_0f_eval fval_def)
  from buildLUT_table [of ?P initial_state, OF D L Z Q R] Z Q L
  show ?thesis by (intro conjI) blast+
qed

section \<open>The width of the converter's \<open>bits\<close> parameter\<close>

lemma dac_bits_ge_14:
  "(14 :: 8 word) \<le> w \<Longrightarrow> dacBipolarVoltageToCode w vref vout = dacBipolarVoltageToCode 14 vref vout"
proof (cases "w = 14")
  case True
  then show ?thesis by simp
next
  case False
  assume "14 \<le> w"
  with False have gt: "14 < w" by simp
  then have nz: "w \<noteq> 0" by auto
  have c: "(14 :: 8 word) \<noteq> 0" "\<not> (14 :: 8 word) < 14" by simp_all
  show ?thesis
    unfolding dacBipolarVoltageToCode_def
    using gt nz c by (simp only: if_True if_False)
qed

text \<open>
  Claim C10. The parameter \<open>bits\<close> is a \<^verbatim>\<open>uint8_t\<close>: an argument \<open>b\<close> arrives as \<open>b mod 256\<close>,
  and whenever that is at least 14 the converter returns what it returns for 14,
  for every \<open>vref\<close> and \<open>vout\<close>, the faulting runs included. The sketch's call passes
  \<^verbatim>\<open>DAC_14_BIT\<close>, which arrives as 255.
\<close>

theorem dac_bits_saturate:
  "(14 \<le> b mod 256 \<longrightarrow>
      dacBipolarVoltageToCode (word_of_int b) vref vout = dacBipolarVoltageToCode 14 vref vout)
   \<and> (word_of_int DAC_14_BIT :: 8 word) = 255
   \<and> dacBipolarVoltageToCode (word_of_int DAC_14_BIT) vref vout = dacBipolarVoltageToCode 14 vref vout"
proof (intro conjI impI)
  assume b: "14 \<le> b mod 256"
  have "uint (word_of_int b :: 8 word) = b mod 256"
    by (simp add: uint_word_of_int)
  with b have "(14 :: 8 word) \<le> word_of_int b"
    by (simp add: word_le_def)
  then show "dacBipolarVoltageToCode (word_of_int b) vref vout = dacBipolarVoltageToCode 14 vref vout"
    by (rule dac_bits_ge_14)
next
  show w: "(word_of_int DAC_14_BIT :: 8 word) = 255"
    by (simp add: DAC_14_BIT_def)
  have "(14 :: 8 word) \<le> 255" by simp
  then have "dacBipolarVoltageToCode 255 vref vout = dacBipolarVoltageToCode 14 vref vout"
    by (rule dac_bits_ge_14)
  then show "dacBipolarVoltageToCode (word_of_int DAC_14_BIT) vref vout = dacBipolarVoltageToCode 14 vref vout"
    by (simp only: w)
qed

theorem dac_bits_saturate_witness:
  "14 \<le> (16383 :: int) mod 256
   \<and> dacBipolarVoltageToCode (word_of_int 16383) (Finite False 8589935 (- 21)) (Finite True 8388608 (- 23))
       = dacBipolarVoltageToCode 14 (Finite False 8589935 (- 21)) (Finite True 8388608 (- 23))"
  using dac_bits_saturate [of 16383 "Finite False 8589935 (- 21)" "Finite True 8388608 (- 23)"]
  by simp

end
